theory Spec2Isabelle
  imports Main "HOL-Library.Char_ord" "HOL-Library.List_Lexorder" "HOL-Library.Multiset"
begin

section \<open>Texts and character classes\<close>

text \<open>
  A Python \<open>str\<close> is a sequence of code points. It is modelled as a \<open>string\<close>, whose
  characters stand for the code points 0 to 255 (\<open>of_char c\<close> is the code point): the texts
  covered are those of Latin-1 range. On that range the classes below are the ones Python's
  \<open>re\<close> module and \<open>str.strip\<close> use for \<open>str\<close> arguments:
  \<^item> \<open>\s\<close> and \<open>str.isspace\<close>: 9 to 13, 28 to 32, 133 and 160;
  \<^item> \<open>\w\<close>: the ASCII letters, digits and underscore, and the Latin-1 alphanumerics;
  \<^item> \<open>\d\<close>: the ASCII digits;
  \<^item> with \<open>re.IGNORECASE\<close>, an ASCII letter of the pattern matches its lower-case and
    its upper-case form and nothing else.
\<close>

definition is_space :: "char \<Rightarrow> bool" where
  "is_space c =
     (let n = (of_char c :: nat)
      in (9 \<le> n \<and> n \<le> 13) \<or> (28 \<le> n \<and> n \<le> 32) \<or> n = 133 \<or> n = 160)"

definition is_digit :: "char \<Rightarrow> bool" where
  "is_digit c = (let n = (of_char c :: nat) in 48 \<le> n \<and> n \<le> 57)"

definition is_word :: "char \<Rightarrow> bool" where
  "is_word c =
     (let n = (of_char c :: nat)
      in (48 \<le> n \<and> n \<le> 57) \<or> (65 \<le> n \<and> n \<le> 90) \<or> n = 95 \<or> (97 \<le> n \<and> n \<le> 122)
         \<or> n = 170 \<or> n = 178 \<or> n = 179 \<or> n = 181 \<or> n = 185 \<or> n = 186
         \<or> (188 \<le> n \<and> n \<le> 190) \<or> (192 \<le> n \<and> n \<le> 214)
         \<or> (216 \<le> n \<and> n \<le> 246) \<or> (248 \<le> n \<and> n \<le> 255))"

definition lower_ascii :: "char \<Rightarrow> char" where
  "lower_ascii c =
     (let n = (of_char c :: nat) in if 65 \<le> n \<and> n \<le> 90 then char_of (n + 32) else c)"

text \<open>\<open>str.strip()\<close> without argument: leading and trailing white space removed.\<close>

definition strip :: "string \<Rightarrow> string" where
  "strip s = rev (dropWhile is_space (rev (dropWhile is_space s)))"

section \<open>The regular expressions of \<open>parse_bibtex_entry\<close>\<close>

text \<open>
  Each pattern of the source is a sequence of greedy runs, each followed by a character
  outside the run's class, so that backtracking has nothing to try: a run is matched by
  \<open>takeWhile\<close> and the text goes on after it with \<open>dropWhile\<close>.
\<close>

text \<open>A literal of lower-case ASCII letters under \<open>re.IGNORECASE\<close>; the result is the
  text after the literal.\<close>

fun lit_ci :: "string \<Rightarrow> string \<Rightarrow> string option" where
  "lit_ci [] t = Some t"
| "lit_ci (p # ps) [] = None"
| "lit_ci (p # ps) (c # cs) = (if lower_ascii c = p then lit_ci ps cs else None)"

text \<open>\<open>re.match(r'^@(\w+)\{([^,]+),', bib_content)\<close>: group 2.\<close>

definition id_match :: "string \<Rightarrow> string option" where
  "id_match s =
     (case s of
        [] \<Rightarrow> None
      | c # r \<Rightarrow>
          if c \<noteq> CHR ''@'' \<or> takeWhile is_word r = [] then None
          else (case dropWhile is_word r of
                  [] \<Rightarrow> None
                | b # r2 \<Rightarrow>
                    if b \<noteq> CHR ''{'' then None
                    else (let k = takeWhile (\<lambda>x. x \<noteq> CHR '','') r2
                          in if k \<noteq> [] \<and> dropWhile (\<lambda>x. x \<noteq> CHR '','') r2 \<noteq> []
                             then Some k else None)))"

text \<open>The pattern \<open>name\s*=\s*\{([^}]+)\}\<close> tried at the start of a text: group 1. The class
  \<open>[^}]\<close> contains the line break, with or without \<open>re.DOTALL\<close>.\<close>

definition field_match_here :: "string \<Rightarrow> string \<Rightarrow> string option" where
  "field_match_here name t =
     (case lit_ci name t of
        None \<Rightarrow> None
      | Some r1 \<Rightarrow>
          (case dropWhile is_space r1 of
             [] \<Rightarrow> None
           | e # r2 \<Rightarrow>
               if e \<noteq> CHR ''='' then None
               else (case dropWhile is_space r2 of
                       [] \<Rightarrow> None
                     | b # r3 \<Rightarrow>
                         if b \<noteq> CHR ''{'' then None
                         else (let v = takeWhile (\<lambda>x. x \<noteq> CHR ''}'') r3
                               in if v \<noteq> [] \<and> dropWhile (\<lambda>x. x \<noteq> CHR ''}'') r3 \<noteq> []
                                  then Some v else None))))"

text \<open>\<open>re.search\<close>: the pattern is tried at every position from the left, the end of the
  text included, and the first match is returned.\<close>

fun field_search :: "string \<Rightarrow> string \<Rightarrow> string option" where
  "field_search name [] = field_match_here name []"
| "field_search name (c # cs) =
     (case field_match_here name (c # cs) of
        Some v \<Rightarrow> Some v
      | None \<Rightarrow> field_search name cs)"

text \<open>The optional opening brace \<open>\{?\<close>: a brace at the start of the text is consumed.\<close>

definition opt_brace :: "string \<Rightarrow> string" where
  "opt_brace r3 = (case r3 of [] \<Rightarrow> r3 | b # r \<Rightarrow> if b = CHR ''{'' then r else r3)"

text \<open>The pattern \<open>year\s*=\s*\{?(\d{4})\}?\<close> tried at the start of a text: group 1. The
  four digits come right after the optional brace: without the brace the pattern demands a
  digit where the brace is, so that doing without a brace that is there never matches.\<close>

definition year_match_here :: "string \<Rightarrow> string option" where
  "year_match_here t =
     (case lit_ci ''year'' t of
        None \<Rightarrow> None
      | Some r1 \<Rightarrow>
          (case dropWhile is_space r1 of
             [] \<Rightarrow> None
           | e # r2 \<Rightarrow>
               if e \<noteq> CHR ''='' then None
               else (let r4 = opt_brace (dropWhile is_space r2)
                     in if 4 \<le> length r4 \<and> list_all is_digit (take 4 r4)
                        then Some (take 4 r4) else None)))"

fun year_search :: "string \<Rightarrow> string option" where
  "year_search [] = year_match_here []"
| "year_search (c # cs) =
     (case year_match_here (c # cs) of
        Some v \<Rightarrow> Some v
      | None \<Rightarrow> year_search cs)"

section \<open>The citation record and \<open>parse_bibtex_entry\<close>\<close>

text \<open>The dictionary built by \<open>parse_bibtex_entry\<close> has the seven keys \<open>id\<close>, \<open>title\<close>,
  \<open>authors\<close>, \<open>year\<close>, \<open>venue\<close>, \<open>abstract\<close> and \<open>bibtex\<close>; the record has one field for
  each.\<close>

record entry =
  entry_id :: string
  entry_title :: string
  entry_authors :: string
  entry_year :: string
  entry_venue :: string
  entry_abstract :: string
  entry_bibtex :: string

definition parse_bibtex_entry :: "string \<Rightarrow> entry" where
  "parse_bibtex_entry bib_content =
     \<lparr> entry_id = (case id_match bib_content of Some k \<Rightarrow> strip k | None \<Rightarrow> []),
       entry_title =
         (case field_search ''title'' bib_content of Some v \<Rightarrow> strip v | None \<Rightarrow> []),
       entry_authors =
         (case field_search ''author'' bib_content of Some v \<Rightarrow> strip v | None \<Rightarrow> []),
       entry_year = (case year_search bib_content of Some y \<Rightarrow> y | None \<Rightarrow> []),
       entry_venue =
         (case field_search ''journal'' bib_content of
            Some j \<Rightarrow> strip j
          | None \<Rightarrow>
              (case field_search ''booktitle'' bib_content of
                 Some b \<Rightarrow> strip b
               | None \<Rightarrow> [])),
       entry_abstract =
         (case field_search ''abstract'' bib_content of
            Some a \<Rightarrow> strip a
          | None \<Rightarrow> ''Abstract not available.''),
       entry_bibtex = strip bib_content \<rparr>"


section \<open>What the patterns say, in words\<close>

text \<open>
  The specification describes a field as \<open>name = { value }\<close>. \<open>field_at name t v\<close> says that
  the text \<open>t\<close> begins with such a field: the name in any case, white space, the equals
  sign, white space, an opening brace, the non-empty value \<open>v\<close> free of closing braces, and
  a closing brace. These are the words of the pattern \<open>name\s*=\s*\{([^}]+)\}\<close>.
\<close>

definition field_at :: "string \<Rightarrow> string \<Rightarrow> string \<Rightarrow> bool" where
  "field_at name t v \<longleftrightarrow>
     (\<exists>n w1 w2 post.
        t = n @ w1 @ ''='' @ w2 @ ''{'' @ v @ ''}'' @ post \<and>
        map lower_ascii n = name \<and> list_all is_space w1 \<and> list_all is_space w2 \<and>
        v \<noteq> [] \<and> CHR ''}'' \<notin> set v)"

text \<open>A field is present in a text when some position of the text begins with it.\<close>

definition field_present :: "string \<Rightarrow> string \<Rightarrow> bool" where
  "field_present name s \<longleftrightarrow> (\<exists>pre t v. s = pre @ t \<and> field_at name t v)"

text \<open>The value of the field in a text is the value at the leftmost such position.\<close>

definition first_field_value :: "string \<Rightarrow> string \<Rightarrow> string \<Rightarrow> bool" where
  "first_field_value name s v \<longleftrightarrow>
     (\<exists>pre t. s = pre @ t \<and> field_at name t v \<and>
        (\<forall>pre' t' v'. s = pre' @ t' \<and> length pre' < length pre \<longrightarrow> \<not> field_at name t' v'))"

text \<open>The same field with nothing between the braces: \<open>name = {}\<close>.\<close>

definition empty_field_at :: "string \<Rightarrow> string \<Rightarrow> bool" where
  "empty_field_at name t \<longleftrightarrow>
     (\<exists>n w1 w2 post.
        t = n @ w1 @ ''='' @ w2 @ ''{}'' @ post \<and>
        map lower_ascii n = name \<and> list_all is_space w1 \<and> list_all is_space w2)"

text \<open>The year as the pattern \<open>year\s*=\s*\{?(\d{4})\}?\<close> words it: the name in any case,
  white space, the equals sign, white space, an opening brace or none, and four digits.\<close>

definition year_at :: "string \<Rightarrow> string \<Rightarrow> bool" where
  "year_at t y \<longleftrightarrow>
     (\<exists>n w1 w2 b post.
        t = n @ w1 @ ''='' @ w2 @ b @ y @ post \<and>
        map lower_ascii n = ''year'' \<and> list_all is_space w1 \<and> list_all is_space w2 \<and>
        (b = [] \<or> b = ''{'') \<and> length y = 4 \<and> list_all is_digit y)"

definition year_present :: "string \<Rightarrow> bool" where
  "year_present s \<longleftrightarrow> (\<exists>pre t y. s = pre @ t \<and> year_at t y)"

text \<open>The leading declaration \<open>@type{key,\<close>: the words of the pattern \<open>^@(\w+)\{([^,]+),\<close>.\<close>

definition declaration_at :: "string \<Rightarrow> string \<Rightarrow> bool" where
  "declaration_at s k \<longleftrightarrow>
     (\<exists>w rest.
        s = ''@'' @ w @ ''{'' @ k @ '','' @ rest \<and>
        w \<noteq> [] \<and> list_all is_word w \<and> k \<noteq> [] \<and> CHR '','' \<notin> set k)"

section \<open>Directories\<close>

text \<open>
  A directory is the list of its entries, each a name with what is there: a regular file
  whose bytes are UTF-8 text (\<open>File\<close>, with the text that \<open>read\<close> returns), a regular file
  whose bytes are not (\<open>Undecodable\<close>), or a directory. The order of the list is the order
  in which the operating system enumerates the directory; names are distinct in a
  directory.
\<close>

datatype node = File string | Undecodable | Dir "(string \<times> node) list"

datatype error = FileExistsError | IsADirectoryError | UnicodeDecodeError

text \<open>What is found at the path of a directory the scripts are about to create.\<close>

datatype 'd path_state = Missing | IsFile | IsDir 'd

text \<open>\<open>Path.mkdir(parents=True, exist_ok=True)\<close> and \<open>Path.mkdir(exist_ok=True)\<close> below an
  existing parent: a missing directory is created empty, an existing one is kept, anything
  else at the path raises \<open>FileExistsError\<close>.\<close>

definition mkdir_exist_ok :: "'d \<Rightarrow> 'd path_state \<Rightarrow> error + 'd" where
  "mkdir_exist_ok fresh p =
     (case p of Missing \<Rightarrow> Inr fresh | IsFile \<Rightarrow> Inl FileExistsError | IsDir d \<Rightarrow> Inr d)"

section \<open>The category table\<close>

definition CATEGORY_INFO :: "(string \<times> string \<times> string) list" where
  "CATEGORY_INFO =
     [(''surveys'', ''Surveys and Bibliometric Analyses'',
         ''Literature and systematic reviews of long-tailed learning in healthcare''),
      (''data-balancing'', ''Data Balancing'',
         ''Resampling and synthetic data generation techniques for addressing class imbalance''),
      (''neural-architecture'', ''Neural Architecture'',
         ''Specialized network designs and architectural modifications for imbalanced data''),
      (''feature-enrichment'', ''Feature Enrichment'',
         ''Representation learning to produce more discriminative embeddings for minority classes''),
      (''logits-adjustment'', ''Logits Adjustment'',
         ''Modify classifier outputs to compensate for class frequency disparities''),
      (''loss-functions'', ''Loss Functions'',
         ''Loss function design for class-imbalanced learning''),
      (''foundation-models'', ''Foundation Models'',
         ''Addressing long-tailed distributions through transfer learning and efficient adaptation.''),
      (''multimodality'', ''Multi-modality'',
         ''Multi-modal learning approaches addressing missing modalities and class imbalance''),
      (''fairness'', ''Fairness, Bias, and Health Equity'',
         ''Methods addressing demographic imbalances and algorithmic fairness in healthcare''),
      (''rare-disease'', ''Rare Disease and Epidemiological Modeling'',
         ''Specialized approaches for extremely rare conditions and few-shot medical scenarios'')]"

text \<open>The table of \<open>setup_folders.py\<close>, a copy of the one above.\<close>

definition CATEGORIES :: "(string \<times> string \<times> string) list" where
  "CATEGORIES =
     [(''surveys'', ''Surveys and Bibliometric Analyses'',
         ''Literature and systematic reviews of long-tailed learning in healthcare''),
      (''data-balancing'', ''Data Balancing'',
         ''Resampling and synthetic data generation techniques for addressing class imbalance''),
      (''neural-architecture'', ''Neural Architecture'',
         ''Specialized network designs and architectural modifications for imbalanced data''),
      (''feature-enrichment'', ''Feature Enrichment'',
         ''Representation learning to produce more discriminative embeddings for minority classes''),
      (''logits-adjustment'', ''Logits Adjustment'',
         ''Modify classifier outputs to compensate for class frequency disparities''),
      (''loss-functions'', ''Loss Functions'',
         ''Loss function design for class-imbalanced learning''),
      (''foundation-models'', ''Foundation Models'',
         ''Addressing long-tailed distributions through transfer learning and efficient adaptation.''),
      (''multimodality'', ''Multi-modality'',
         ''Multi-modal learning approaches addressing missing modalities and class imbalance''),
      (''fairness'', ''Fairness, Bias, and Health Equity'',
         ''Methods addressing demographic imbalances and algorithmic fairness in healthcare''),
      (''rare-disease'', ''Rare Disease and Epidemiological Modeling'',
         ''Specialized approaches for extremely rare conditions and few-shot medical scenarios'')]"

section \<open>\<open>process_category\<close>\<close>

text \<open>
  The display name of a folder outside the table is
  \<open>category_name.replace('-', ' ').title()\<close>. \<open>str.title\<close> puts a character that follows a
  cased character in lower case and any other character in title case. The title case of
  three characters of the range leaves the range or is two characters long (\<open>181\<close> becomes
  \<open>924\<close>, \<open>223\<close> becomes \<open>83 115\<close>, \<open>255\<close> becomes \<open>376\<close>), so that the display name is kept as
  the list of its code points.
\<close>

definition is_cased :: "char \<Rightarrow> bool" where
  "is_cased c =
     (let n = (of_char c :: nat)
      in (65 \<le> n \<and> n \<le> 90) \<or> (97 \<le> n \<and> n \<le> 122) \<or> n = 170 \<or> n = 181 \<or> n = 186
         \<or> (192 \<le> n \<and> n \<le> 214) \<or> (216 \<le> n \<and> n \<le> 246) \<or> (248 \<le> n \<and> n \<le> 255))"

definition lower_points :: "char \<Rightarrow> nat list" where
  "lower_points c =
     (let n = (of_char c :: nat)
      in if (65 \<le> n \<and> n \<le> 90) \<or> (192 \<le> n \<and> n \<le> 214) \<or> (216 \<le> n \<and> n \<le> 222)
         then [n + 32] else [n])"

definition title_points :: "char \<Rightarrow> nat list" where
  "title_points c =
     (let n = (of_char c :: nat)
      in if (97 \<le> n \<and> n \<le> 122) \<or> (224 \<le> n \<and> n \<le> 246) \<or> (248 \<le> n \<and> n \<le> 254)
         then [n - 32]
         else if n = 181 then [924]
         else if n = 223 then [83, 115]
         else if n = 255 then [376]
         else [n])"

fun title_from :: "bool \<Rightarrow> string \<Rightarrow> nat list" where
  "title_from previous_is_cased [] = []"
| "title_from previous_is_cased (c # cs) =
     (if previous_is_cased then lower_points c else title_points c)
       @ title_from (is_cased c) cs"

definition str_title :: "string \<Rightarrow> nat list" where
  "str_title s = title_from False s"

text \<open>The code points of a text of the table.\<close>

definition code_points :: "string \<Rightarrow> nat list" where
  "code_points s = map of_char s"

definition replace_hyphens :: "string \<Rightarrow> string" where
  "replace_hyphens s = map (\<lambda>c. if c = CHR ''-'' then CHR '' '' else c) s"

text \<open>\<open>glob('*.bib')\<close> keeps the names that end in \<open>.bib\<close>, files and directories alike.\<close>

definition endswith :: "string \<Rightarrow> string \<Rightarrow> bool" where
  "endswith suf s \<longleftrightarrow> length suf \<le> length s \<and> drop (length s - length suf) s = suf"

definition is_bib :: "string \<times> node \<Rightarrow> bool" where
  "is_bib e = endswith ''.bib'' (fst e)"

text \<open>The citation files of a directory, as the specification counts them: the regular
  files whose name ends in \<open>.bib\<close> and that read as UTF-8 text, each with its name and its
  text.\<close>

fun reads_as_text :: "node \<Rightarrow> bool" where
  "reads_as_text (File c) = True"
| "reads_as_text Undecodable = False"
| "reads_as_text (Dir es) = False"

fun node_text :: "node \<Rightarrow> string" where
  "node_text (File c) = c"
| "node_text Undecodable = []"
| "node_text (Dir es) = []"

definition bib_files_of :: "(string \<times> node) list \<Rightarrow> (string \<times> string) list" where
  "bib_files_of es =
     map (\<lambda>e. (fst e, node_text (snd e))) (filter (\<lambda>e. is_bib e \<and> reads_as_text (snd e)) es)"

record taxonomy =
  category :: "nat list"
  description :: string
  papers :: "entry list"

text \<open>The loop over \<open>bib_files\<close>: each file is opened with \<open>encoding='utf-8'\<close>, read and
  parsed. Opening a directory raises \<open>IsADirectoryError\<close> and reading bytes that are not
  UTF-8 raises \<open>UnicodeDecodeError\<close>; nothing catches either, and the first one ends the
  loop.\<close>

fun read_papers :: "(string \<times> node) list \<Rightarrow> error + entry list" where
  "read_papers [] = Inr []"
| "read_papers ((name, File bib_content) # bib_files) =
     (case read_papers bib_files of
        Inl e \<Rightarrow> Inl e
      | Inr ps \<Rightarrow> Inr (parse_bibtex_entry bib_content # ps))"
| "read_papers ((name, Undecodable) # bib_files) = Inl UnicodeDecodeError"
| "read_papers ((name, Dir es) # bib_files) = Inl IsADirectoryError"

text \<open>\<open>sorted\<close> orders the paths of one directory by their names, compared code point by
  code point: the lexicographic order of strings.\<close>

definition process_category :: "string \<Rightarrow> (string \<times> node) list \<Rightarrow> error + taxonomy" where
  "process_category category_name category_folder =
     (let category_data =
            (case map_of CATEGORY_INFO category_name of
               Some d \<Rightarrow> (code_points (fst d), snd d)
             | None \<Rightarrow> (str_title (replace_hyphens category_name), []));
          bib_files = sort_key fst (filter is_bib category_folder)
      in case read_papers bib_files of
           Inl e \<Rightarrow> Inl e
         | Inr ps \<Rightarrow>
             Inr \<lparr> category = fst category_data, description = snd category_data,
                   papers = ps \<rparr>)"

section \<open>\<open>build_all_taxonomies\<close>\<close>

text \<open>
  The output directory maps a file name to what is there: a taxonomy document written by
  \<open>json.dump\<close>, or something else that was there before the run.
\<close>

datatype out_node = Json taxonomy | Other node

type_synonym out_dir = "string \<rightharpoonup> out_node"

type_synonym stats = "string \<rightharpoonup> nat"

text \<open>Opening \<open>output_dir / name.json\<close> for writing replaces a file and raises
  \<open>IsADirectoryError\<close> on a directory.\<close>

definition write_json :: "out_dir \<Rightarrow> string \<Rightarrow> taxonomy \<Rightarrow> error + out_dir" where
  "write_json out output_file doc =
     (case out output_file of
        Some (Other (Dir es)) \<Rightarrow> Inl IsADirectoryError
      | _ \<Rightarrow> Inr (out(output_file \<mapsto> Json doc)))"

text \<open>The loop of \<open>build_all_taxonomies\<close> over the sorted entries of the citations
  directory. On an error the files written so far stay.\<close>

fun build_loop ::
  "(string \<times> node) list \<Rightarrow> out_dir \<Rightarrow> stats \<Rightarrow> out_dir \<times> (error + stats)" where
  "build_loop [] out stats = (out, Inr stats)"
| "build_loop ((name, File c) # rest) out stats = build_loop rest out stats"
| "build_loop ((name, Undecodable) # rest) out stats = build_loop rest out stats"
| "build_loop ((name, Dir es) # rest) out stats =
     (if name \<in> set (map fst CATEGORY_INFO) then
        (case process_category name es of
           Inl e \<Rightarrow> (out, Inl e)
         | Inr doc \<Rightarrow>
             (case write_json out (name @ ''.json'') doc of
                Inl e \<Rightarrow> (out, Inl e)
              | Inr out' \<Rightarrow>
                  build_loop rest out' (stats(name \<mapsto> length (papers doc)))))
      else build_loop rest out stats)"

text \<open>The result: the citations directory and the output directory after the run, and the
  returned \<open>stats\<close> or the error raised.\<close>

definition build_all_taxonomies ::
  "(string \<times> node) list path_state \<Rightarrow> out_dir path_state \<Rightarrow>
     (string \<times> node) list path_state \<times> out_dir path_state \<times> (error + stats)" where
  "build_all_taxonomies citations_dir output_dir =
     (case mkdir_exist_ok [] citations_dir of
        Inl e \<Rightarrow> (citations_dir, output_dir, Inl e)
      | Inr es \<Rightarrow>
          (case mkdir_exist_ok Map.empty output_dir of
             Inl e \<Rightarrow> (IsDir es, output_dir, Inl e)
           | Inr out \<Rightarrow>
               (case build_loop (sort_key fst es) out Map.empty of
                  (out', r) \<Rightarrow> (IsDir es, IsDir out', r))))"

text \<open>The file of a name in the output directory, before or after the run.\<close>

definition out_file :: "out_dir path_state \<Rightarrow> string \<Rightarrow> out_node option" where
  "out_file p f = (case p of IsDir out \<Rightarrow> out f | _ \<Rightarrow> None)"

section \<open>The folder initializer: \<open>main\<close> of \<open>setup_folders.py\<close>\<close>

text \<open>The loop over \<open>CATEGORIES\<close>: a name that exists in the citations directory is counted
  as existing, any other is created as an empty directory and counted as created.\<close>

fun ensure_folders ::
  "string list \<Rightarrow> (string \<times> node) list \<Rightarrow> nat \<Rightarrow> nat \<Rightarrow> (string \<times> node) list \<times> nat \<times> nat" where
  "ensure_folders [] es created existing = (es, created, existing)"
| "ensure_folders (folder_name # fs) es created existing =
     (if folder_name \<in> set (map fst es)
      then ensure_folders fs es created (existing + 1)
      else ensure_folders fs (es @ [(folder_name, Dir [])]) (created + 1) existing)"

text \<open>The result: the entries of the citations directory after the run with the two
  counts the summary prints, or the error raised.\<close>

definition setup_folders_main ::
  "(string \<times> node) list path_state \<Rightarrow> error + ((string \<times> node) list \<times> nat \<times> nat)" where
  "setup_folders_main citations_dir =
     (case mkdir_exist_ok [] citations_dir of
        Inl e \<Rightarrow> Inl e
      | Inr es \<Rightarrow> Inr (ensure_folders (map fst CATEGORIES) es 0 0))"

section \<open>The patterns and their words\<close>

lemma lit_ci_iff: "lit_ci p t = Some r \<longleftrightarrow> (\<exists>n. t = n @ r \<and> map lower_ascii n = p)"
proof (induction p t rule: lit_ci.induct)
  case (1 t)
  then show ?case by auto
next
  case (2 p ps)
  then show ?case by auto
next
  case (3 p ps c cs)
  show ?case
  proof (cases "lower_ascii c = p")
    case True
    have "(\<exists>n. c # cs = n @ r \<and> map lower_ascii n = p # ps)
          \<longleftrightarrow> (\<exists>m. cs = m @ r \<and> map lower_ascii m = ps)"
      using True by (auto simp: Cons_eq_append_conv map_eq_Cons_conv)
    with 3 True show ?thesis by simp
  next
    case False
    then show ?thesis by (auto simp: Cons_eq_append_conv map_eq_Cons_conv)
  qed
qed

lemma dropWhile_run: "list_all P w \<Longrightarrow> \<not> P c \<Longrightarrow> dropWhile P (w @ c # r) = c # r"
  by (induction w) auto

lemma takeWhile_run: "list_all P w \<Longrightarrow> \<not> P c \<Longrightarrow> takeWhile P (w @ c # r) = w"
  by (induction w) auto

lemma run_split:
  "dropWhile P xs = c # r \<Longrightarrow> xs = takeWhile P xs @ c # r \<and> list_all P (takeWhile P xs) \<and> \<not> P c"
  by (metis dropWhile_eq_Cons_conv list_all_iff set_takeWhileD)

lemma not_space_eq: "\<not> is_space CHR ''=''" by (simp add: is_space_def)
lemma not_space_brace: "\<not> is_space CHR ''{''" by (simp add: is_space_def)

lemma field_match_here_sound:
  assumes "field_match_here name t = Some v"
  shows "field_at name t v"
proof -
  from assms obtain r1 where r1: "lit_ci name t = Some r1"
    by (auto simp: field_match_here_def split: option.splits)
  from assms r1 obtain r2 where r2: "dropWhile is_space r1 = CHR ''='' # r2"
    by (auto simp: field_match_here_def split: option.splits list.splits if_splits)
  from assms r1 r2 obtain r3 where r3: "dropWhile is_space r2 = CHR ''{'' # r3"
    by (auto simp: field_match_here_def split: option.splits list.splits if_splits)
  from assms r1 r2 r3 have v: "v = takeWhile (\<lambda>x. x \<noteq> CHR ''}'') r3" "v \<noteq> []"
    and d: "dropWhile (\<lambda>x. x \<noteq> CHR ''}'') r3 \<noteq> []"
    by (auto simp: field_match_here_def Let_def split: if_splits)
  from d obtain c post where cp: "dropWhile (\<lambda>x. x \<noteq> CHR ''}'') r3 = c # post"
    by (cases "dropWhile (\<lambda>x. x \<noteq> CHR ''}'') r3") auto
  from run_split [OF cp] v have s3: "r3 = v @ ''}'' @ post" and nv: "CHR ''}'' \<notin> set v"
    by (auto simp: list_all_iff)
  from r1 obtain n where n: "t = n @ r1" "map lower_ascii n = name"
    by (auto simp: lit_ci_iff)
  from run_split [OF r2] have s1: "r1 = takeWhile is_space r1 @ ''='' @ r2"
    and w1: "list_all is_space (takeWhile is_space r1)" by auto
  from run_split [OF r3] have s2: "r2 = takeWhile is_space r2 @ ''{'' @ r3"
    and w2: "list_all is_space (takeWhile is_space r2)" by auto
  have "t = n @ takeWhile is_space r1 @ ''='' @ takeWhile is_space r2 @ ''{'' @ v @ ''}'' @ post"
    using n(1) s1 s2 s3 by simp
  with n(2) w1 w2 v(2) nv show ?thesis
    unfolding field_at_def by blast
qed

lemma field_match_here_complete:
  assumes "field_at name t v"
  shows "field_match_here name t = Some v"
proof -
  from assms obtain n w1 w2 post where
    t: "t = n @ w1 @ ''='' @ w2 @ ''{'' @ v @ ''}'' @ post" and
    n: "map lower_ascii n = name" and w1: "list_all is_space w1" and w2: "list_all is_space w2" and
    v: "v \<noteq> []" "CHR ''}'' \<notin> set v"
    unfolding field_at_def by blast
  have l: "lit_ci name t = Some (w1 @ CHR ''='' # w2 @ CHR ''{'' # v @ CHR ''}'' # post)"
    using t n by (auto simp: lit_ci_iff)
  have tv: "takeWhile (\<lambda>x. x \<noteq> CHR ''}'') (v @ CHR ''}'' # post) = v"
    using v(2) by (intro takeWhile_run) (auto simp: list_all_iff)
  have dv: "dropWhile (\<lambda>x. x \<noteq> CHR ''}'') (v @ CHR ''}'' # post) = CHR ''}'' # post"
    using v(2) by (intro dropWhile_run) (auto simp: list_all_iff)
  show ?thesis
    using v(1)
    by (simp add: field_match_here_def l dropWhile_run [OF w1 not_space_eq]
        dropWhile_run [OF w2 not_space_brace] tv dv)
qed

lemma field_match_here_iff: "field_match_here name t = Some v \<longleftrightarrow> field_at name t v"
  using field_match_here_sound field_match_here_complete by blast

lemma field_search_None_iff:
  "field_search name s = None \<longleftrightarrow> (\<forall>pre t. s = pre @ t \<longrightarrow> field_match_here name t = None)"
proof (induction s)
  case Nil
  then show ?case by simp
next
  case (Cons c cs)
  show ?case
  proof (cases "field_match_here name (c # cs)")
    case None
    have "(\<forall>pre t. c # cs = pre @ t \<longrightarrow> field_match_here name t = None)
          \<longleftrightarrow> (\<forall>pre t. cs = pre @ t \<longrightarrow> field_match_here name t = None)"
      using None by (auto simp: Cons_eq_append_conv)
    with Cons None show ?thesis by simp
  next
    case (Some v)
    then show ?thesis by (auto intro: exI [of _ "[]"])
  qed
qed

lemma field_search_Some_iff:
  "field_search name s = Some v \<longleftrightarrow>
     (\<exists>pre t. s = pre @ t \<and> field_match_here name t = Some v \<and>
        (\<forall>pre' t'. s = pre' @ t' \<and> length pre' < length pre \<longrightarrow> field_match_here name t' = None))"
proof (induction s)
  case Nil
  then show ?case by auto
next
  case (Cons c cs)
  show ?case
  proof (cases "field_match_here name (c # cs)")
    case None
    have "(\<exists>pre t. c # cs = pre @ t \<and> field_match_here name t = Some v \<and>
            (\<forall>pre' t'. c # cs = pre' @ t' \<and> length pre' < length pre \<longrightarrow> field_match_here name t' = None))
       \<longleftrightarrow> (\<exists>pre t. cs = pre @ t \<and> field_match_here name t = Some v \<and>
            (\<forall>pre' t'. cs = pre' @ t' \<and> length pre' < length pre \<longrightarrow> field_match_here name t' = None))"
      (is "?L \<longleftrightarrow> ?R")
    proof
      assume ?L
      then obtain pre t where h: "c # cs = pre @ t" "field_match_here name t = Some v"
        "\<forall>pre' t'. c # cs = pre' @ t' \<and> length pre' < length pre \<longrightarrow> field_match_here name t' = None"
        by blast
      from h(1,2) None obtain p where p: "pre = c # p" "cs = p @ t"
        by (cases pre) auto
      have "\<forall>pre' t'. cs = pre' @ t' \<and> length pre' < length p \<longrightarrow> field_match_here name t' = None"
      proof (intro allI impI)
        fix pre' t' assume a: "cs = pre' @ t' \<and> length pre' < length p"
        then have "c # cs = (c # pre') @ t' \<and> length (c # pre') < length pre" using p by simp
        with h(3) show "field_match_here name t' = None" by blast
      qed
      with p h(2) show ?R by blast
    next
      assume ?R
      then obtain p t where h: "cs = p @ t" "field_match_here name t = Some v"
        "\<forall>pre' t'. cs = pre' @ t' \<and> length pre' < length p \<longrightarrow> field_match_here name t' = None"
        by blast
      have "\<forall>pre' t'. c # cs = pre' @ t' \<and> length pre' < length (c # p) \<longrightarrow> field_match_here name t' = None"
      proof (intro allI impI)
        fix pre' t' assume a: "c # cs = pre' @ t' \<and> length pre' < length (c # p)"
        show "field_match_here name t' = None"
        proof (cases pre')
          case Nil
          with a None show ?thesis by simp
        next
          case (Cons x q)
          with a have "cs = q @ t' \<and> length q < length p" by simp
          with h(3) show ?thesis by blast
        qed
      qed
      moreover have "c # cs = (c # p) @ t" using h(1) by simp
      ultimately show ?L using h(2) by blast
    qed
    with Cons None show ?thesis by simp
  next
    case (Some w)
    show ?thesis
    proof
      assume "field_search name (c # cs) = Some v"
      with Some have "w = v" by simp
      with Some have "c # cs = [] @ (c # cs) \<and> field_match_here name (c # cs) = Some v \<and>
        (\<forall>pre' t'. c # cs = pre' @ t' \<and> length pre' < length ([]::string) \<longrightarrow> field_match_here name t' = None)"
        by simp
      then show "\<exists>pre t. c # cs = pre @ t \<and> field_match_here name t = Some v \<and>
        (\<forall>pre' t'. c # cs = pre' @ t' \<and> length pre' < length pre \<longrightarrow> field_match_here name t' = None)"
        by blast
    next
      assume "\<exists>pre t. c # cs = pre @ t \<and> field_match_here name t = Some v \<and>
        (\<forall>pre' t'. c # cs = pre' @ t' \<and> length pre' < length pre \<longrightarrow> field_match_here name t' = None)"
      then obtain pre t where h: "c # cs = pre @ t" "field_match_here name t = Some v"
        "\<forall>pre' t'. c # cs = pre' @ t' \<and> length pre' < length pre \<longrightarrow> field_match_here name t' = None"
        by blast
      have "pre = []"
      proof (rule ccontr)
        assume "pre \<noteq> []"
        then have "c # cs = [] @ (c # cs) \<and> length ([]::string) < length pre" by simp
        with h(3) have "field_match_here name (c # cs) = None" by blast
        with Some show False by simp
      qed
      with h(1) have "t = c # cs" by simp
      with h(2) Some have "w = v" by simp
      with Some show "field_search name (c # cs) = Some v" by simp
    qed
  qed
qed

lemma field_search_first: "field_search name s = Some v \<longleftrightarrow> first_field_value name s v"
  unfolding first_field_value_def field_search_Some_iff
  by (simp add: field_match_here_iff [symmetric])

lemma field_search_absent: "field_search name s = None \<longleftrightarrow> \<not> field_present name s"
  unfolding field_present_def field_search_None_iff
  by (auto simp: field_match_here_iff [symmetric])

lemma first_field_value_present: "first_field_value name s v \<Longrightarrow> field_present name s"
  unfolding first_field_value_def field_present_def by blast

lemma first_field_value_unique:
  "first_field_value name s v \<Longrightarrow> first_field_value name s v' \<Longrightarrow> v = v'"
  by (metis field_search_first option.inject)

lemma rev_run_split: "xs = rev (dropWhile P (rev xs)) @ rev (takeWhile P (rev xs))"
proof -
  have "rev (rev xs) = rev (takeWhile P (rev xs) @ dropWhile P (rev xs))"
    by (simp only: takeWhile_dropWhile_id)
  then show ?thesis by (simp only: rev_rev_ident rev_append)
qed

lemma dropWhile_hd: "xs \<noteq> [] \<Longrightarrow> \<not> P (hd xs) \<Longrightarrow> dropWhile P xs = xs"
  by (cases xs) auto

lemma strip_decompose:
  "\<exists>l r. s = l @ strip s @ r \<and> list_all is_space l \<and> list_all is_space r"
proof -
  define m where "m = dropWhile is_space s"
  have 1: "s = takeWhile is_space s @ m" by (simp add: m_def)
  have 2: "m = strip s @ rev (takeWhile is_space (rev m))"
    unfolding strip_def m_def by (rule rev_run_split)
  have 3: "list_all is_space (takeWhile is_space s)"
    by (auto simp: list_all_iff dest: set_takeWhileD)
  have 4: "list_all is_space (rev (takeWhile is_space (rev m)))"
    by (auto simp: list_all_iff dest: set_takeWhileD)
  from 1 2 have "s = takeWhile is_space s @ strip s @ rev (takeWhile is_space (rev m))" by simp
  with 3 4 show ?thesis by blast
qed

lemma strip_ends:
  assumes "strip s \<noteq> []"
  shows "\<not> is_space (hd (strip s)) \<and> \<not> is_space (last (strip s))"
proof -
  define m where "m = dropWhile is_space s"
  define d where "d = dropWhile is_space (rev m)"
  have b: "strip s = rev d" by (simp add: strip_def m_def d_def)
  with assms have dn: "d \<noteq> []" by simp
  then have l: "\<not> is_space (hd d)" unfolding d_def by (rule hd_dropWhile)
  have "last (strip s) = hd d" using b dn by (simp add: last_rev)
  with l have A: "\<not> is_space (last (strip s))" by simp
  have mm: "m = rev d @ rev (takeWhile is_space (rev m))"
    unfolding d_def by (rule rev_run_split)
  from dn have "rev d \<noteq> []" by simp
  with mm have "hd m = hd (rev d)" by (metis hd_append2)
  moreover have "m \<noteq> []" using mm dn by auto
  then have "\<not> is_space (hd m)" unfolding m_def by (rule hd_dropWhile)
  ultimately have "\<not> is_space (hd (strip s))" using b by simp
  with A show ?thesis by simp
qed

lemma strip_id:
  assumes "s = [] \<or> (\<not> is_space (hd s) \<and> \<not> is_space (last s))"
  shows "strip s = s"
proof (cases s)
  case Nil
  then show ?thesis by (simp add: strip_def)
next
  case (Cons c cs)
  with assms have h: "\<not> is_space (hd s)" "\<not> is_space (last s)" by auto
  from Cons h(1) have 1: "dropWhile is_space s = s" by simp
  from Cons have "rev s \<noteq> []" by simp
  moreover have "hd (rev s) = last s" using Cons by (simp add: hd_rev)
  ultimately have 2: "dropWhile is_space (rev s) = rev s"
    using h(2) by (intro dropWhile_hd) simp_all
  show ?thesis by (simp add: strip_def 1 2)
qed

lemma not_word_brace: "\<not> is_word CHR ''{''" by (simp add: is_word_def)

lemma id_match_sound:
  assumes "id_match s = Some k"
  shows "declaration_at s k"
proof -
  from assms obtain r where s: "s = CHR ''@'' # r" and w: "takeWhile is_word r \<noteq> []"
    by (auto simp: id_match_def split: list.splits if_splits)
  from assms s w obtain r2 where r2: "dropWhile is_word r = CHR ''{'' # r2"
    by (auto simp: id_match_def split: list.splits if_splits)
  from assms s w r2 have k: "k = takeWhile (\<lambda>x. x \<noteq> CHR '','') r2" "k \<noteq> []"
    and d: "dropWhile (\<lambda>x. x \<noteq> CHR '','') r2 \<noteq> []"
    by (auto simp: id_match_def Let_def split: if_splits)
  from d obtain c rest where cr: "dropWhile (\<lambda>x. x \<noteq> CHR '','') r2 = c # rest"
    by (cases "dropWhile (\<lambda>x. x \<noteq> CHR '','') r2") auto
  from run_split [OF cr] k have s2: "r2 = k @ '','' @ rest" and nk: "CHR '','' \<notin> set k"
    by (auto simp: list_all_iff)
  from run_split [OF r2] have s1: "r = takeWhile is_word r @ ''{'' @ r2"
    and ww: "list_all is_word (takeWhile is_word r)" by auto
  have "s = ''@'' @ takeWhile is_word r @ ''{'' @ k @ '','' @ rest"
    using s s1 s2 by simp
  with w ww k(2) nk show ?thesis unfolding declaration_at_def by blast
qed

lemma id_match_complete:
  assumes "declaration_at s k"
  shows "id_match s = Some k"
proof -
  from assms obtain w rest where
    s: "s = ''@'' @ w @ ''{'' @ k @ '','' @ rest" and
    w: "w \<noteq> []" "list_all is_word w" and k: "k \<noteq> []" "CHR '','' \<notin> set k"
    unfolding declaration_at_def by blast
  have tw: "takeWhile is_word (w @ CHR ''{'' # k @ CHR '','' # rest) = w"
    by (rule takeWhile_run [OF w(2) not_word_brace])
  have dw: "dropWhile is_word (w @ CHR ''{'' # k @ CHR '','' # rest) = CHR ''{'' # k @ CHR '','' # rest"
    by (rule dropWhile_run [OF w(2) not_word_brace])
  have tk: "takeWhile (\<lambda>x. x \<noteq> CHR '','') (k @ CHR '','' # rest) = k"
    using k(2) by (intro takeWhile_run) (auto simp: list_all_iff)
  have dk: "dropWhile (\<lambda>x. x \<noteq> CHR '','') (k @ CHR '','' # rest) = CHR '','' # rest"
    using k(2) by (intro dropWhile_run) (auto simp: list_all_iff)
  show ?thesis
    using w(1) k(1) by (simp add: id_match_def s tw dw tk dk)
qed

lemma id_match_iff: "id_match s = Some k \<longleftrightarrow> declaration_at s k"
  using id_match_sound id_match_complete by blast

lemma empty_field_no_match:
  assumes "empty_field_at name t"
  shows "field_match_here name t = None"
proof -
  from assms obtain n w1 w2 post where
    t: "t = n @ w1 @ ''='' @ w2 @ ''{}'' @ post" and
    n: "map lower_ascii n = name" and w1: "list_all is_space w1" and w2: "list_all is_space w2"
    unfolding empty_field_at_def by blast
  have l: "lit_ci name t = Some (w1 @ CHR ''='' # w2 @ CHR ''{'' # CHR ''}'' # post)"
    using t n by (auto simp: lit_ci_iff)
  show ?thesis
    by (simp add: field_match_here_def l dropWhile_run [OF w1 not_space_eq]
        dropWhile_run [OF w2 not_space_brace])
qed

lemma field_search_present: "field_present name s \<longleftrightarrow> field_search name s \<noteq> None"
  by (simp add: field_search_absent)

lemma digit_not_space: "is_digit c \<Longrightarrow> \<not> is_space c"
  by (auto simp: is_digit_def is_space_def Let_def)

lemma digit_not_brace: "is_digit c \<Longrightarrow> c \<noteq> CHR ''{''"
  by (auto simp: is_digit_def)

lemma opt_brace_split: "\<exists>b. r3 = b @ opt_brace r3 \<and> (b = [] \<or> b = ''{'')"
proof (cases r3)
  case Nil
  then show ?thesis by (simp add: opt_brace_def)
next
  case (Cons a l)
  show ?thesis
  proof (cases "a = CHR ''{''")
    case True
    with Cons have "r3 = ''{'' @ opt_brace r3" by (simp add: opt_brace_def)
    then show ?thesis by blast
  next
    case False
    with Cons have "r3 = [] @ opt_brace r3" by (simp add: opt_brace_def)
    then show ?thesis by blast
  qed
qed

lemma year_match_here_sound:
  assumes "year_match_here t = Some y"
  shows "year_at t y"
proof -
  from assms obtain r1 where r1: "lit_ci ''year'' t = Some r1"
    by (cases "lit_ci ''year'' t") (simp_all add: year_match_here_def)
  from assms r1 obtain r2 where r2: "dropWhile is_space r1 = CHR ''='' # r2"
    by (cases "dropWhile is_space r1") (simp_all add: year_match_here_def split: if_splits)
  define r3 where "r3 = dropWhile is_space r2"
  define r4 where "r4 = opt_brace r3"
  have eq: "year_match_here t =
      (if 4 \<le> length r4 \<and> list_all is_digit (take 4 r4) then Some (take 4 r4) else None)"
    unfolding r4_def r3_def by (simp add: year_match_here_def r1 r2 Let_def)
  have c: "4 \<le> length r4 \<and> list_all is_digit (take 4 r4)"
  proof (rule ccontr)
    assume "\<not> (4 \<le> length r4 \<and> list_all is_digit (take 4 r4))"
    then have "year_match_here t = None" by (simp only: eq simp_thms if_False)
    with assms show False by simp
  qed
  then have "year_match_here t = Some (take 4 r4)" by (simp only: eq simp_thms if_True)
  with assms have y1: "y = take 4 r4" by simp
  note y = y1 conjunct1 [OF c] conjunct2 [OF c]
  from opt_brace_split [of r3] obtain b where b: "r3 = b @ r4" "b = [] \<or> b = ''{''"
    unfolding r4_def by blast
  from r1 obtain n where n: "t = n @ r1" "map lower_ascii n = ''year''"
    by (auto simp: lit_ci_iff)
  from run_split [OF r2] have s1: "r1 = takeWhile is_space r1 @ ''='' @ r2"
    and w1: "list_all is_space (takeWhile is_space r1)" by auto
  have s2: "r2 = takeWhile is_space r2 @ r3" by (simp add: r3_def)
  have w2: "list_all is_space (takeWhile is_space r2)"
    by (auto simp: list_all_iff dest: set_takeWhileD)
  have s4: "r4 = y @ drop 4 r4" by (simp add: y(1))
  have T: "t = n @ takeWhile is_space r1 @ ''='' @ takeWhile is_space r2 @ b @ y @ drop 4 r4"
    by (subst n(1), subst s1, subst s2, subst b(1), subst s4) (rule refl)
  have L: "length y = 4" using y(1,2) by simp
  have D: "list_all is_digit y" using y(3) unfolding y(1) .
  have "t = n @ takeWhile is_space r1 @ ''='' @ takeWhile is_space r2 @ b @ y @ drop 4 r4 \<and>
        map lower_ascii n = ''year'' \<and> list_all is_space (takeWhile is_space r1) \<and>
        list_all is_space (takeWhile is_space r2) \<and> (b = [] \<or> b = ''{'') \<and>
        length y = 4 \<and> list_all is_digit y"
    using T n(2) w1 w2 b(2) L D by (intro conjI)
  then show ?thesis
    unfolding year_at_def by (intro exI)
qed

lemma dropWhile_space_digits:
  assumes "list_all is_space w" "list_all is_digit y" "y \<noteq> []"
  shows "dropWhile is_space (w @ y @ post) = y @ post"
proof -
  from assms(3) obtain d ds where y: "y = d # ds" by (cases y) auto
  with assms(2) have "\<not> is_space d" by (simp add: digit_not_space)
  from dropWhile_run [OF assms(1) this] y show ?thesis by simp
qed

lemma opt_brace_digits:
  assumes "list_all is_digit y" "y \<noteq> []"
  shows "opt_brace (y @ post) = y @ post"
proof -
  from assms(2) obtain d ds where y: "y = d # ds" by (cases y) auto
  with assms(1) have "d \<noteq> CHR ''{''" by (simp add: digit_not_brace)
  with y show ?thesis by (simp add: opt_brace_def)
qed

lemma year_match_here_complete:
  assumes "year_at t y"
  shows "year_match_here t = Some y"
proof -
  from assms obtain n w1 w2 b post where
    t: "t = n @ w1 @ ''='' @ w2 @ b @ y @ post" and
    n: "map lower_ascii n = ''year''" and w1: "list_all is_space w1" and w2: "list_all is_space w2" and
    b: "b = [] \<or> b = ''{''" and y: "length y = 4" "list_all is_digit y"
    unfolding year_at_def by iprover
  from y(1) have yn: "y \<noteq> []" by auto
  have l: "lit_ci ''year'' t = Some (w1 @ CHR ''='' # w2 @ b @ y @ post)"
    unfolding lit_ci_iff using t n by (intro exI [of _ n]) simp
  have ty: "take 4 (y @ post) = y" using y(1) by simp
  have ly: "4 \<le> length (y @ post)" using y(1) by simp
  have r4: "opt_brace (dropWhile is_space (w2 @ b @ y @ post)) = y @ post"
  proof (cases "b = []")
    case True
    then show ?thesis
      using dropWhile_space_digits [OF w2 y(2) yn, of post] opt_brace_digits [OF y(2) yn, of post]
      by simp
  next
    case False
    with b have bb: "b = ''{''" by simp
    have "dropWhile is_space (w2 @ b @ y @ post) = CHR ''{'' # y @ post"
      using dropWhile_run [OF w2 not_space_brace, of "y @ post"] by (simp add: bb)
    then show ?thesis by (simp add: opt_brace_def)
  qed
  show ?thesis
    using y
    by (simp add: year_match_here_def l dropWhile_run [OF w1 not_space_eq] r4)
qed

lemma year_match_here_iff: "year_match_here t = Some y \<longleftrightarrow> year_at t y"
  using year_match_here_sound year_match_here_complete by blast

lemma year_search_None_iff:
  "year_search s = None \<longleftrightarrow> (\<forall>pre t. s = pre @ t \<longrightarrow> year_match_here t = None)"
proof (induction s)
  case Nil
  then show ?case by simp
next
  case (Cons c cs)
  show ?case
  proof (cases "year_match_here (c # cs)")
    case None
    have "(\<forall>pre t. c # cs = pre @ t \<longrightarrow> year_match_here t = None)
          \<longleftrightarrow> (\<forall>pre t. cs = pre @ t \<longrightarrow> year_match_here t = None)"
      using None by (auto simp: Cons_eq_append_conv)
    with Cons None show ?thesis by simp
  next
    case (Some v)
    then show ?thesis by (auto intro: exI [of _ "[]"])
  qed
qed

lemma year_search_absent: "year_search s = None \<longleftrightarrow> \<not> year_present s"
  unfolding year_present_def year_search_None_iff
  by (auto simp: year_match_here_iff [symmetric])

lemma id_match_None_iff: "id_match s = None \<longleftrightarrow> (\<forall>k. \<not> declaration_at s k)"
  by (auto simp: id_match_iff [symmetric])

lemma splits_iff:
  "(\<forall>pre' t'. s = pre' @ t' \<longrightarrow> Q pre' t') \<longleftrightarrow>
   (\<forall>i\<in>set [0..<Suc (length s)]. Q (take i s) (drop i s))"
proof
  assume a: "\<forall>pre' t'. s = pre' @ t' \<longrightarrow> Q pre' t'"
  show "\<forall>i\<in>set [0..<Suc (length s)]. Q (take i s) (drop i s)"
  proof
    fix i
    have "s = take i s @ drop i s" by simp
    with a show "Q (take i s) (drop i s)" by blast
  qed
next
  assume b: "\<forall>i\<in>set [0..<Suc (length s)]. Q (take i s) (drop i s)"
  show "\<forall>pre' t'. s = pre' @ t' \<longrightarrow> Q pre' t'"
  proof (intro allI impI)
    fix pre' t' assume s: "s = pre' @ t'"
    then have "length pre' \<in> set [0..<Suc (length s)]" by simp
    with b have "Q (take (length pre') s) (drop (length pre') s)" by blast
    with s show "Q pre' t'" by simp
  qed
qed

lemma other_positions_iff:
  "(\<forall>pre' t'. s = pre' @ t' \<and> pre' \<noteq> pre \<longrightarrow> (\<forall>v. \<not> field_at name t' v)) \<longleftrightarrow>
   (\<forall>i\<in>set [0..<Suc (length s)]. take i s \<noteq> pre \<longrightarrow> field_match_here name (drop i s) = None)"
proof -
  have "(\<forall>pre' t'. s = pre' @ t' \<and> pre' \<noteq> pre \<longrightarrow> (\<forall>v. \<not> field_at name t' v)) \<longleftrightarrow>
        (\<forall>pre' t'. s = pre' @ t' \<longrightarrow> (pre' \<noteq> pre \<longrightarrow> field_match_here name t' = None))"
    by (auto simp: field_match_here_iff [symmetric])
  then show ?thesis by (simp only: splits_iff)
qed

lemma empty_field_absent:
  assumes "s = pre @ t" and "empty_field_at name t"
    and "\<forall>pre' t'. s = pre' @ t' \<and> pre' \<noteq> pre \<longrightarrow> (\<forall>v. \<not> field_at name t' v)"
  shows "field_search name s = None"
proof -
  have "\<forall>p t'. s = p @ t' \<longrightarrow> field_match_here name t' = None"
  proof (intro allI impI)
    fix p t' assume s: "s = p @ t'"
    show "field_match_here name t' = None"
    proof (cases "p = pre")
      case True
      with s assms(1) have "t' = t" by simp
      with assms(2) show ?thesis by (simp add: empty_field_no_match)
    next
      case False
      with s assms(3) have "\<forall>v. \<not> field_at name t' v" by blast
      then show ?thesis by (auto simp: field_match_here_iff [symmetric])
    qed
  qed
  then show ?thesis by (simp only: field_search_None_iff)
qed

lemma ensure_folders_existing:
  "set fs \<subseteq> set (map fst es) \<Longrightarrow>
   ensure_folders fs es created existing = (es, created, existing + length fs)"
  by (induction fs arbitrary: existing) auto

lemma ensure_folders_names:
  "ensure_folders fs es created existing = (es', c, e) \<Longrightarrow>
   set (map fst es') = set (map fst es) \<union> set fs"
proof (induction fs es created existing rule: ensure_folders.induct)
  case (1 es created existing)
  then show ?case by simp
next
  case (2 folder_name fs es created existing)
  show ?case
  proof (cases "folder_name \<in> set (map fst es)")
    case True
    with 2 show ?thesis by auto
  next
    case False
    with 2(2) [OF False] 2(3) show ?thesis by auto
  qed
qed

lemma ensure_folders_keeps:
  "ensure_folders fs es created existing = (es', c, e) \<Longrightarrow>
   \<exists>new. es' = es @ new \<and> (\<forall>x\<in>set new. snd x = Dir [] \<and> fst x \<in> set fs - set (map fst es))"
proof (induction fs es created existing rule: ensure_folders.induct)
  case (1 es created existing)
  then show ?case by simp
next
  case (2 folder_name fs es created existing)
  show ?case
  proof (cases "folder_name \<in> set (map fst es)")
    case True
    with 2(1) [OF True] 2(3) obtain new where
      "es' = es @ new \<and> (\<forall>x\<in>set new. snd x = Dir [] \<and> fst x \<in> set fs - set (map fst es))"
      by auto
    then show ?thesis by auto
  next
    case False
    with 2(2) [OF False] 2(3) obtain new where
      n: "es' = (es @ [(folder_name, Dir [])]) @ new"
         "\<forall>x\<in>set new. snd x = Dir [] \<and>
            fst x \<in> set fs - set (map fst (es @ [(folder_name, Dir [])]))"
      by auto
    have "es' = es @ ((folder_name, Dir []) # new)" using n(1) by simp
    moreover have "\<forall>x\<in>set ((folder_name, Dir []) # new).
        snd x = Dir [] \<and> fst x \<in> set (folder_name # fs) - set (map fst es)"
      using n(2) False by auto
    ultimately show ?thesis by blast
  qed
qed

lemma ensure_folders_counts:
  "ensure_folders fs es created existing = (es', c, e) \<Longrightarrow>
   c + e = created + existing + length fs \<and> length es' = length es + (c - created) \<and> created \<le> c"
  by (induction fs es created existing rule: ensure_folders.induct) (auto split: if_splits)

lemma length_CATEGORIES: "length CATEGORIES = 10"
  by (simp add: CATEGORIES_def)

lemma json_name_inj: "a @ ''.json'' = b @ ''.json'' \<longleftrightarrow> a = b"
  by simp

lemma write_json_other:
  "write_json out f doc = Inr out' \<Longrightarrow> g \<noteq> f \<Longrightarrow> out' g = out g"
  by (auto simp: write_json_def split: option.splits out_node.splits node.splits)

lemma build_loop_unknown:
  assumes "name \<notin> set (map fst CATEGORY_INFO)"
  shows "build_loop es out stats = (out', r) \<Longrightarrow>
         out' (name @ ''.json'') = out (name @ ''.json'') \<and>
         (\<forall>st. r = Inr st \<longrightarrow> st name = stats name)"
proof (induction es out stats rule: build_loop.induct)
  case (1 out stats)
  then show ?case by auto
next
  case (2 n c rest out stats)
  then show ?case by simp
next
  case (3 n rest out stats)
  then show ?case by simp
next
  case (4 n es rest out stats)
  show ?case
  proof (cases "n \<in> set (map fst CATEGORY_INFO)")
    case False
    with 4 show ?thesis by simp
  next
    case True
    with assms have ne: "n \<noteq> name" by auto
    show ?thesis
    proof (cases "process_category n es")
      case (Inl e)
      with 4(3) True show ?thesis by auto
    next
      case (Inr doc)
      show ?thesis
      proof (cases "write_json out (n @ ''.json'') doc")
        case (Inl e)
        with 4(3) True Inr show ?thesis by auto
      next
        case w: (Inr out1)
        from 4(3) True Inr w have
          "build_loop rest out1 (stats(n \<mapsto> length (papers doc))) = (out', r)" by simp
        from 4(1) [OF True Inr w this] have
          "out' (name @ ''.json'') = out1 (name @ ''.json'') \<and>
           (\<forall>st. r = Inr st \<longrightarrow> st name = (stats(n \<mapsto> length (papers doc))) name)" .
        moreover have "out1 (name @ ''.json'') = out (name @ ''.json'')"
          using write_json_other [OF w] ne by simp
        ultimately show ?thesis using ne by simp
      qed
    qed
  qed
qed

lemma build_loop_filter:
  assumes "name \<notin> set (map fst CATEGORY_INFO)"
  shows "build_loop (filter (\<lambda>e. fst e \<noteq> name) es) out stats = build_loop es out stats"
proof (induction es out stats rule: build_loop.induct)
  case (1 out stats)
  then show ?case by simp
next
  case (2 n c rest out stats)
  then show ?case by simp
next
  case (3 n rest out stats)
  then show ?case by simp
next
  case (4 n es rest out stats)
  show ?case
  proof (cases "n \<in> set (map fst CATEGORY_INFO)")
    case False
    with 4 show ?thesis by simp
  next
    case True
    with assms have ne: "n \<noteq> name" by auto
    show ?thesis
    proof (cases "process_category n es")
      case (Inl e)
      with True ne show ?thesis by simp
    next
      case (Inr doc)
      show ?thesis
      proof (cases "write_json out (n @ ''.json'') doc")
        case (Inl e)
        with True ne Inr show ?thesis by simp
      next
        case w: (Inr out1)
        have ih: "build_loop (filter (\<lambda>e. fst e \<noteq> name) rest) out1
                    (stats(n \<mapsto> length (papers doc)))
                  = build_loop rest out1 (stats(n \<mapsto> length (papers doc)))"
          using 4(1) [OF True Inr w] .
        show ?thesis using True ne Inr w by (simp add: ih del: fun_upd_apply)
      qed
    qed
  qed
qed

lemma read_papers_files:
  "\<forall>e\<in>set xs. reads_as_text (snd e) \<Longrightarrow>
   read_papers xs = Inr (map (\<lambda>e. parse_bibtex_entry (node_text (snd e))) xs)"
  by (induction xs rule: read_papers.induct) auto

lemma read_papers_raises:
  "\<exists>e\<in>set xs. \<not> reads_as_text (snd e) \<Longrightarrow> isl (read_papers xs)"
proof (induction xs rule: read_papers.induct)
  case 1
  then show ?case by simp
next
  case (2 name bib_content bib_files)
  then show ?case by (auto split: sum.splits)
next
  case (3 name bib_files)
  then show ?case by simp
next
  case (4 name es bib_files)
  then show ?case by simp
qed

lemma process_category_raises:
  assumes "\<exists>e\<in>set category_folder. is_bib e \<and> \<not> reads_as_text (snd e)"
  shows "isl (process_category category_name category_folder)"
proof -
  from assms obtain e where e: "e \<in> set category_folder" "is_bib e" "\<not> reads_as_text (snd e)"
    by blast
  then have "e \<in> set (sort_key fst (filter is_bib category_folder))" by simp
  with e(3) have "\<exists>e\<in>set (sort_key fst (filter is_bib category_folder)).
      \<not> reads_as_text (snd e)" by blast
  from read_papers_raises [OF this] show ?thesis
    by (auto simp: process_category_def Let_def split: sum.splits)
qed

section \<open>The source text kept in the record\<close>

text \<open>
  Claim C3, as amended: the \<open>bibtex\<close> field of the parsed record is the input text without its
  leading and trailing white space. The input is that field between two runs of white
  space, the field neither begins nor ends with white space, and it is the input itself,
  unchanged, when the input neither begins nor ends with white space.
\<close>

theorem bibtex_is_stripped_input:
  "entry_bibtex (parse_bibtex_entry s) = strip s \<and>
   (\<exists>l r. s = l @ entry_bibtex (parse_bibtex_entry s) @ r \<and>
           list_all is_space l \<and> list_all is_space r) \<and>
   (entry_bibtex (parse_bibtex_entry s) \<noteq> [] \<longrightarrow>
      \<not> is_space (hd (entry_bibtex (parse_bibtex_entry s))) \<and>
      \<not> is_space (last (entry_bibtex (parse_bibtex_entry s)))) \<and>
   (s = [] \<or> (\<not> is_space (hd s) \<and> \<not> is_space (last s)) \<longrightarrow>
      entry_bibtex (parse_bibtex_entry s) = s)"
proof -
  have b: "entry_bibtex (parse_bibtex_entry s) = strip s"
    by (simp add: parse_bibtex_entry_def)
  show ?thesis
    unfolding b using strip_decompose [of s] strip_ends [of s] strip_id [of s] by blast
qed

text \<open>The theorem at a text that ends with a line break, and at the same text without it.\<close>

theorem bibtex_is_stripped_input_witness:
  "entry_bibtex (parse_bibtex_entry (''@misc{k, title = {T}}'' @ [CHR 0x0A]))
     = ''@misc{k, title = {T}}'' \<and>
   \<not> is_space (hd ''@misc{k, title = {T}}'') \<and> \<not> is_space (last ''@misc{k, title = {T}}'') \<and>
   entry_bibtex (parse_bibtex_entry ''@misc{k, title = {T}}'') = ''@misc{k, title = {T}}''"
  using bibtex_is_stripped_input [of "''@misc{k, title = {T}}'' @ [CHR 0x0A]"]
    bibtex_is_stripped_input [of "''@misc{k, title = {T}}''"]
  by (simp add: strip_def is_space_def)

text \<open>Claim C3 as written fails: a text that ends with a line break is not kept verbatim.\<close>

theorem bibtex_not_verbatim:
  "entry_bibtex (parse_bibtex_entry (''@misc{k, title = {T}}'' @ [CHR 0x0A]))
   \<noteq> ''@misc{k, title = {T}}'' @ [CHR 0x0A]"
  by (simp add: parse_bibtex_entry_def strip_def is_space_def)

section \<open>The venue\<close>

text \<open>
  Claim C4: the venue follows a strict priority. When the journal field is present the venue
  is the journal value, trimmed, also when a booktitle field is present; when it is absent
  and the booktitle field is present the venue is the booktitle value, trimmed; when both
  are absent the venue is empty. The venue is never made of both values.
\<close>

theorem venue_priority:
  "(first_field_value ''journal'' s j \<longrightarrow> entry_venue (parse_bibtex_entry s) = strip j) \<and>
   (first_field_value ''journal'' s j \<and> field_present ''booktitle'' s \<longrightarrow>
      entry_venue (parse_bibtex_entry s) = strip j) \<and>
   (\<not> field_present ''journal'' s \<and> first_field_value ''booktitle'' s b \<longrightarrow>
      entry_venue (parse_bibtex_entry s) = strip b) \<and>
   (\<not> field_present ''journal'' s \<and> \<not> field_present ''booktitle'' s \<longrightarrow>
      entry_venue (parse_bibtex_entry s) = [])"
  by (simp add: parse_bibtex_entry_def field_search_first [symmetric]
      field_search_absent [symmetric])

text \<open>The theorem at an entry with both fields, at one with a booktitle only and at one
  with neither.\<close>

theorem venue_priority_witness:
  "first_field_value ''journal'' ''@a{k, booktitle = {Proc}, journal = { Nature }}'' '' Nature '' \<and>
   field_present ''booktitle'' ''@a{k, booktitle = {Proc}, journal = { Nature }}'' \<and>
   entry_venue (parse_bibtex_entry ''@a{k, booktitle = {Proc}, journal = { Nature }}'') = ''Nature'' \<and>
   \<not> field_present ''journal'' ''@a{k, booktitle = {Proc}}'' \<and>
   first_field_value ''booktitle'' ''@a{k, booktitle = {Proc}}'' ''Proc'' \<and>
   entry_venue (parse_bibtex_entry ''@a{k, booktitle = {Proc}}'') = ''Proc'' \<and>
   \<not> field_present ''journal'' ''@a{k, year = 2020}'' \<and>
   \<not> field_present ''booktitle'' ''@a{k, year = 2020}'' \<and>
   entry_venue (parse_bibtex_entry ''@a{k, year = 2020}'') = []"
proof -
  have 1: "first_field_value ''journal'' ''@a{k, booktitle = {Proc}, journal = { Nature }}'' '' Nature ''"
    unfolding field_search_first [symmetric] by code_simp
  have 2: "field_present ''booktitle'' ''@a{k, booktitle = {Proc}, journal = { Nature }}''"
    unfolding field_search_present by code_simp
  have 3: "\<not> field_present ''journal'' ''@a{k, booktitle = {Proc}}''"
    unfolding field_search_absent [symmetric] by code_simp
  have 4: "first_field_value ''booktitle'' ''@a{k, booktitle = {Proc}}'' ''Proc''"
    unfolding field_search_first [symmetric] by code_simp
  have 5: "\<not> field_present ''journal'' ''@a{k, year = 2020}''"
    unfolding field_search_absent [symmetric] by code_simp
  have 6: "\<not> field_present ''booktitle'' ''@a{k, year = 2020}''"
    unfolding field_search_absent [symmetric] by code_simp
  have 7: "strip '' Nature '' = ''Nature''" "strip ''Proc'' = ''Proc''" by code_simp+
  show ?thesis
    using 1 2 3 4 5 6
      venue_priority [of "''@a{k, booktitle = {Proc}, journal = { Nature }}''" "'' Nature ''" "[]"]
      venue_priority [of "''@a{k, booktitle = {Proc}}''" "[]" "''Proc''"]
      venue_priority [of "''@a{k, year = 2020}''" "[]" "[]"]
    by (simp only: 7 simp_thms)
qed

section \<open>The abstract\<close>

text \<open>
  Claim C5: the abstract is the text of the abstract field, trimmed, when the field is
  present, and the placeholder \<open>Abstract not available.\<close> when it is absent.
\<close>

theorem abstract_or_placeholder:
  "(first_field_value ''abstract'' s a \<longrightarrow> entry_abstract (parse_bibtex_entry s) = strip a) \<and>
   (\<not> field_present ''abstract'' s \<longrightarrow>
      entry_abstract (parse_bibtex_entry s) = ''Abstract not available.'')"
  by (simp add: parse_bibtex_entry_def field_search_first [symmetric]
      field_search_absent [symmetric])

text \<open>The theorem at an entry whose abstract spans two lines and at one without abstract.\<close>

theorem abstract_or_placeholder_witness:
  "first_field_value ''abstract'' (''@a{k, Abstract = { We study'' @ [CHR 0x0A] @ ''tails. }}'')
     ('' We study'' @ [CHR 0x0A] @ ''tails. '') \<and>
   entry_abstract (parse_bibtex_entry (''@a{k, Abstract = { We study'' @ [CHR 0x0A] @ ''tails. }}''))
     = ''We study'' @ [CHR 0x0A] @ ''tails.'' \<and>
   \<not> field_present ''abstract'' ''@a{k, title = {T}}'' \<and>
   entry_abstract (parse_bibtex_entry ''@a{k, title = {T}}'') = ''Abstract not available.''"
proof -
  have 1: "first_field_value ''abstract'' (''@a{k, Abstract = { We study'' @ [CHR 0x0A] @ ''tails. }}'')
     ('' We study'' @ [CHR 0x0A] @ ''tails. '')"
    unfolding field_search_first [symmetric] by code_simp
  have 2: "\<not> field_present ''abstract'' ''@a{k, title = {T}}''"
    unfolding field_search_absent [symmetric] by code_simp
  have 3: "strip ('' We study'' @ [CHR 0x0A] @ ''tails. '') = ''We study'' @ [CHR 0x0A] @ ''tails.''"
    by code_simp
  show ?thesis
    using 1 2
      abstract_or_placeholder [of "''@a{k, Abstract = { We study'' @ [CHR 0x0A] @ ''tails. }}''"
        "'' We study'' @ [CHR 0x0A] @ ''tails. ''"]
      abstract_or_placeholder [of "''@a{k, title = {T}}''" "[]"]
    by (simp only: 3 simp_thms)
qed

section \<open>The parser never fails\<close>

text \<open>
  Every operation of \<open>parse_bibtex_entry\<close> is defined on every text: \<open>re.match\<close> and
  \<open>re.search\<close> return a match or \<open>None\<close>, \<open>group\<close> is called on a match only and names a
  group of its pattern, and \<open>strip\<close> is total. The function has no branch that raises, and
  \<open>parse_bibtex_entry\<close> above is a total function into records.

  Claim C8: the parser returns a record for every text. When the text does not begin with a
  declaration \<open>@type{key,\<close> the identifier is empty, and otherwise it is the key, trimmed;
  an absent field leaves its default, the empty string or the placeholder of the abstract,
  and a text with no declaration and no field gives the record of the defaults.
\<close>

theorem parser_total_with_defaults:
  "(declaration_at s k \<longrightarrow> entry_id (parse_bibtex_entry s) = strip k) \<and>
   ((\<forall>k. \<not> declaration_at s k) \<longrightarrow> entry_id (parse_bibtex_entry s) = []) \<and>
   (\<not> field_present ''title'' s \<longrightarrow> entry_title (parse_bibtex_entry s) = []) \<and>
   (\<not> field_present ''author'' s \<longrightarrow> entry_authors (parse_bibtex_entry s) = []) \<and>
   (\<not> year_present s \<longrightarrow> entry_year (parse_bibtex_entry s) = []) \<and>
   (\<not> field_present ''journal'' s \<and> \<not> field_present ''booktitle'' s \<longrightarrow>
      entry_venue (parse_bibtex_entry s) = []) \<and>
   (\<not> field_present ''abstract'' s \<longrightarrow>
      entry_abstract (parse_bibtex_entry s) = ''Abstract not available.'') \<and>
   ((\<forall>k. \<not> declaration_at s k) \<and> \<not> field_present ''title'' s \<and>
    \<not> field_present ''author'' s \<and> \<not> year_present s \<and> \<not> field_present ''journal'' s \<and>
    \<not> field_present ''booktitle'' s \<and> \<not> field_present ''abstract'' s \<longrightarrow>
      parse_bibtex_entry s =
        \<lparr> entry_id = [], entry_title = [], entry_authors = [], entry_year = [],
          entry_venue = [], entry_abstract = ''Abstract not available.'',
          entry_bibtex = strip s \<rparr>)"
  by (simp add: parse_bibtex_entry_def field_search_absent [symmetric]
      year_search_absent [symmetric] id_match_None_iff [symmetric] id_match_iff [symmetric])

text \<open>The theorem at a text without the leading \<open>@\<close> and without any of the fields, and
  at a text with the declaration and a key between blanks.\<close>

theorem parser_total_with_defaults_witness:
  "(\<forall>k. \<not> declaration_at ''article{foo2020, publisher = {X}}'' k) \<and>
   \<not> field_present ''title'' ''article{foo2020, publisher = {X}}'' \<and>
   \<not> field_present ''author'' ''article{foo2020, publisher = {X}}'' \<and>
   \<not> year_present ''article{foo2020, publisher = {X}}'' \<and>
   \<not> field_present ''journal'' ''article{foo2020, publisher = {X}}'' \<and>
   \<not> field_present ''booktitle'' ''article{foo2020, publisher = {X}}'' \<and>
   \<not> field_present ''abstract'' ''article{foo2020, publisher = {X}}'' \<and>
   parse_bibtex_entry ''article{foo2020, publisher = {X}}'' =
     \<lparr> entry_id = [], entry_title = [], entry_authors = [], entry_year = [],
       entry_venue = [], entry_abstract = ''Abstract not available.'',
       entry_bibtex = ''article{foo2020, publisher = {X}}'' \<rparr> \<and>
   declaration_at ''@article{ foo2020 , publisher = {X}}'' '' foo2020 '' \<and>
   entry_id (parse_bibtex_entry ''@article{ foo2020 , publisher = {X}}'') = ''foo2020''"
proof -
  have 1: "\<forall>k. \<not> declaration_at ''article{foo2020, publisher = {X}}'' k"
    unfolding id_match_None_iff [symmetric] by code_simp
  have 2: "\<not> field_present ''title'' ''article{foo2020, publisher = {X}}''"
    "\<not> field_present ''author'' ''article{foo2020, publisher = {X}}''"
    "\<not> field_present ''journal'' ''article{foo2020, publisher = {X}}''"
    "\<not> field_present ''booktitle'' ''article{foo2020, publisher = {X}}''"
    "\<not> field_present ''abstract'' ''article{foo2020, publisher = {X}}''"
    unfolding field_search_absent [symmetric] by code_simp+
  have 3: "\<not> year_present ''article{foo2020, publisher = {X}}''"
    unfolding year_search_absent [symmetric] by code_simp
  have 4: "declaration_at ''@article{ foo2020 , publisher = {X}}'' '' foo2020 ''"
    unfolding id_match_iff [symmetric] by code_simp
  have 5: "strip ''article{foo2020, publisher = {X}}'' = ''article{foo2020, publisher = {X}}''"
    "strip '' foo2020 '' = ''foo2020''" by code_simp+
  show ?thesis
    using 1 2 3 4
      parser_total_with_defaults [of "''article{foo2020, publisher = {X}}''" "[]"]
      parser_total_with_defaults [of "''@article{ foo2020 , publisher = {X}}''" "'' foo2020 ''"]
    by (simp only: 5 simp_thms)
qed

section \<open>Fields with an empty value\<close>

text \<open>
  Claim C10, as amended: a field written with nothing between its braces, \<open>name = {}\<close>, is not
  a match of the field's pattern, which wants at least one character there. When the
  pattern matches at no other position of the text, the field is absent for the parser:
  the title and the authors are empty and the abstract is the placeholder; with an empty
  journal the venue is the booktitle value when there is one and empty otherwise, and with
  an empty booktitle and no journal the venue is empty.
\<close>

theorem empty_value_is_absent:
  assumes "s = pre @ t" and "empty_field_at name t"
    and "\<forall>pre' t'. s = pre' @ t' \<and> pre' \<noteq> pre \<longrightarrow> (\<forall>v. \<not> field_at name t' v)"
  shows "(\<forall>v. \<not> field_at name t v) \<and> \<not> field_present name s \<and>
         (name = ''title'' \<longrightarrow> entry_title (parse_bibtex_entry s) = []) \<and>
         (name = ''author'' \<longrightarrow> entry_authors (parse_bibtex_entry s) = []) \<and>
         (name = ''abstract'' \<longrightarrow>
            entry_abstract (parse_bibtex_entry s) = ''Abstract not available.'') \<and>
         (name = ''journal'' \<and> first_field_value ''booktitle'' s b \<longrightarrow>
            entry_venue (parse_bibtex_entry s) = strip b) \<and>
         (name = ''journal'' \<and> \<not> field_present ''booktitle'' s \<longrightarrow>
            entry_venue (parse_bibtex_entry s) = []) \<and>
         (name = ''booktitle'' \<and> \<not> field_present ''journal'' s \<longrightarrow>
            entry_venue (parse_bibtex_entry s) = [])"
proof -
  have n: "field_search name s = None" by (rule empty_field_absent [OF assms])
  have 0: "\<forall>v. \<not> field_at name t v"
    using empty_field_no_match [OF assms(2)] by (auto simp: field_match_here_iff [symmetric])
  have 1: "\<not> field_present name s" using n unfolding field_search_absent .
  have 2: "name = ''title'' \<longrightarrow> entry_title (parse_bibtex_entry s) = []"
    using n by (auto simp: parse_bibtex_entry_def)
  have 3: "name = ''author'' \<longrightarrow> entry_authors (parse_bibtex_entry s) = []"
    using n by (auto simp: parse_bibtex_entry_def)
  have 4: "name = ''abstract'' \<longrightarrow>
      entry_abstract (parse_bibtex_entry s) = ''Abstract not available.''"
    using n by (auto simp: parse_bibtex_entry_def)
  have 5: "name = ''journal'' \<and> first_field_value ''booktitle'' s b \<longrightarrow>
      entry_venue (parse_bibtex_entry s) = strip b"
    using n by (auto simp: parse_bibtex_entry_def field_search_first [symmetric])
  have 6: "name = ''journal'' \<and> \<not> field_present ''booktitle'' s \<longrightarrow>
      entry_venue (parse_bibtex_entry s) = []"
    using n by (auto simp: parse_bibtex_entry_def field_search_absent [symmetric])
  have 7: "name = ''booktitle'' \<and> \<not> field_present ''journal'' s \<longrightarrow>
      entry_venue (parse_bibtex_entry s) = []"
    using n by (auto simp: parse_bibtex_entry_def field_search_absent [symmetric])
  from 0 1 2 3 4 5 6 7 show ?thesis by (intro conjI)
qed

text \<open>The theorem at an empty title, at an empty abstract and at an empty journal beside a
  booktitle.\<close>

theorem empty_value_is_absent_witness:
  "empty_field_at ''title'' ''title = {}}'' \<and>
   entry_title (parse_bibtex_entry ''@misc{k, title = {}}'') = [] \<and>
   empty_field_at ''abstract'' ''Abstract={}, author = {A}}'' \<and>
   entry_abstract (parse_bibtex_entry ''@misc{k, Abstract={}, author = {A}}'')
     = ''Abstract not available.'' \<and>
   empty_field_at ''journal'' ''journal = {}, booktitle = { Proc }}'' \<and>
   first_field_value ''booktitle'' ''@misc{k, journal = {}, booktitle = { Proc }}'' '' Proc '' \<and>
   entry_venue (parse_bibtex_entry ''@misc{k, journal = {}, booktitle = { Proc }}'') = ''Proc''"
proof -
  have e1: "empty_field_at ''title'' ''title = {}}''"
    unfolding empty_field_at_def
    by (rule exI [of _ "''title''"], rule exI [of _ "'' ''"], rule exI [of _ "'' ''"],
        rule exI [of _ "''}''"]) (simp add: lower_ascii_def is_space_def)
  have e2: "empty_field_at ''abstract'' ''Abstract={}, author = {A}}''"
    unfolding empty_field_at_def
    by (rule exI [of _ "''Abstract''"], rule exI [of _ "[]"], rule exI [of _ "[]"],
        rule exI [of _ "'', author = {A}}''"]) code_simp
  have e3: "empty_field_at ''journal'' ''journal = {}, booktitle = { Proc }}''"
    unfolding empty_field_at_def
    by (rule exI [of _ "''journal''"], rule exI [of _ "'' ''"], rule exI [of _ "'' ''"],
        rule exI [of _ "'', booktitle = { Proc }}''"]) (simp add: lower_ascii_def is_space_def)
  have o1: "\<forall>pre' t'. ''@misc{k, title = {}}'' = pre' @ t' \<and> pre' \<noteq> ''@misc{k, '' \<longrightarrow>
              (\<forall>v. \<not> field_at ''title'' t' v)"
    unfolding other_positions_iff by code_simp
  have o2: "\<forall>pre' t'. ''@misc{k, Abstract={}, author = {A}}'' = pre' @ t' \<and> pre' \<noteq> ''@misc{k, '' \<longrightarrow>
              (\<forall>v. \<not> field_at ''abstract'' t' v)"
    unfolding other_positions_iff by code_simp
  have o3: "\<forall>pre' t'. ''@misc{k, journal = {}, booktitle = { Proc }}'' = pre' @ t' \<and> pre' \<noteq> ''@misc{k, '' \<longrightarrow>
              (\<forall>v. \<not> field_at ''journal'' t' v)"
    unfolding other_positions_iff by code_simp
  have b: "first_field_value ''booktitle'' ''@misc{k, journal = {}, booktitle = { Proc }}'' '' Proc ''"
    unfolding field_search_first [symmetric] by code_simp
  have s: "strip '' Proc '' = ''Proc''" by code_simp
  have a1: "''@misc{k, title = {}}'' = ''@misc{k, '' @ ''title = {}}''" by simp
  have a2: "''@misc{k, Abstract={}, author = {A}}'' = ''@misc{k, '' @ ''Abstract={}, author = {A}}''"
    by simp
  have a3: "''@misc{k, journal = {}, booktitle = { Proc }}'' =
            ''@misc{k, '' @ ''journal = {}, booktitle = { Proc }}''" by simp
  show ?thesis
    using e1 e2 e3 b
      empty_value_is_absent [OF a1 e1 o1, of "[]"]
      empty_value_is_absent [OF a2 e2 o2, of "[]"]
      empty_value_is_absent [OF a3 e3 o3, of "'' Proc ''"]
    by (simp only: s simp_thms)
qed

text \<open>Claim C10 as written fails: with an empty journal and a booktitle the venue is not
  empty, and an empty abstract followed by a second abstract field does not give the
  placeholder.\<close>

theorem empty_value_not_always_default:
  "entry_venue (parse_bibtex_entry ''@inproceedings{k, journal = {}, booktitle = {Proc}}'') \<noteq> [] \<and>
   entry_abstract (parse_bibtex_entry ''@misc{k, abstract = {}, abstract = {A}}'')
     \<noteq> ''Abstract not available.''"
  by code_simp

section \<open>The title\<close>

text \<open>
  Claim C1: when the entry has a title field \<open>title = {...}\<close>, the title of the record is the
  text between the braces of that field, trimmed. The pattern of the title is searched
  without regard to what precedes the name, and \<open>booktitle\<close> ends in \<open>title\<close>: in an entry
  whose booktitle field comes before its title field the search stops in the booktitle.
  The theorem evaluates the parser on such an entry: its title field holds \<open>Deep Tails\<close>,
  and the title of the record is the booktitle value.
\<close>

theorem title_taken_from_booktitle:
  "field_at ''title'' ''title = {Deep Tails}, year = {2020}}'' ''Deep Tails'' \<and>
   entry_title (parse_bibtex_entry
     ''@inproceedings{k, author = {A. Author}, booktitle = {NeurIPS}, title = {Deep Tails}, year = {2020}}'')
   = ''NeurIPS''"
proof -
  have "field_at ''title'' ''title = {Deep Tails}, year = {2020}}'' ''Deep Tails''"
    unfolding field_match_here_iff [symmetric] by code_simp
  moreover have "entry_title (parse_bibtex_entry
     ''@inproceedings{k, author = {A. Author}, booktitle = {NeurIPS}, title = {Deep Tails}, year = {2020}}'')
   = ''NeurIPS''"
    by code_simp
  ultimately show ?thesis by (intro conjI)
qed

text \<open>What the search for the title gives in general: the value at the leftmost position
  where the name \<open>title\<close> begins a field, whatever stands before the name.\<close>

lemma title_is_first_value:
  "first_field_value ''title'' s v \<Longrightarrow> entry_title (parse_bibtex_entry s) = strip v"
  by (simp add: parse_bibtex_entry_def field_search_first [symmetric])

section \<open>The folder initializer run twice\<close>

text \<open>
  Claim C9: the folder initializer is idempotent. After a first run that ended without
  error, a second run on the directory the first one left raises no error, leaves the
  directory as it is, with nothing created and nothing deleted, and reports no folder
  created and all ten as existing. The first run itself keeps every entry it found and
  adds the folders it counts as created.
\<close>

theorem setup_folders_idempotent:
  assumes "setup_folders_main citations_dir = Inr (es', created, existing)"
  shows "setup_folders_main (IsDir es') = Inr (es', 0, 10) \<and>
         set (map fst CATEGORIES) \<subseteq> set (map fst es') \<and>
         created + existing = 10 \<and>
         (\<forall>es. citations_dir = IsDir es \<longrightarrow> (\<exists>new. es' = es @ new \<and> length new = created))"
proof -
  from assms obtain es where
    m: "mkdir_exist_ok [] citations_dir = Inr es" and
    e: "ensure_folders (map fst CATEGORIES) es 0 0 = (es', created, existing)"
    by (auto simp: setup_folders_main_def split: sum.splits)
  from ensure_folders_names [OF e] have sub: "set (map fst CATEGORIES) \<subseteq> set (map fst es')"
    by auto
  have 1: "setup_folders_main (IsDir es') = Inr (es', 0, 10)"
    using ensure_folders_existing [OF sub, of 0 0]
    by (simp add: setup_folders_main_def mkdir_exist_ok_def length_CATEGORIES)
  from ensure_folders_counts [OF e] have 3: "created + existing = 10"
    and len: "length es' = length es + created"
    by (simp_all add: length_CATEGORIES)
  from ensure_folders_keeps [OF e] obtain new where new: "es' = es @ new" by blast
  with len have "length new = created" by simp
  with new have k: "\<exists>new. es' = es @ new \<and> length new = created" by blast
  have 4: "\<forall>es0. citations_dir = IsDir es0 \<longrightarrow> (\<exists>new. es' = es0 @ new \<and> length new = created)"
    using m k by (auto simp: mkdir_exist_ok_def)
  from 1 sub 3 4 show ?thesis by (intro conjI)
qed

text \<open>The theorem at a citations directory that holds one category folder with a file in it
  and a file of its own: the first run creates the nine other folders, the second none.\<close>

theorem setup_folders_idempotent_witness:
  "setup_folders_main
     (IsDir [(''surveys'', Dir [(''a.bib'', File ''@misc{a,}'')]), (''README.md'', File ''notes'')])
   = Inr ([(''surveys'', Dir [(''a.bib'', File ''@misc{a,}'')]), (''README.md'', File ''notes''),
           (''data-balancing'', Dir []), (''neural-architecture'', Dir []),
           (''feature-enrichment'', Dir []), (''logits-adjustment'', Dir []),
           (''loss-functions'', Dir []), (''foundation-models'', Dir []),
           (''multimodality'', Dir []), (''fairness'', Dir []), (''rare-disease'', Dir [])],
          9, 1) \<and>
   setup_folders_main
     (IsDir [(''surveys'', Dir [(''a.bib'', File ''@misc{a,}'')]), (''README.md'', File ''notes''),
           (''data-balancing'', Dir []), (''neural-architecture'', Dir []),
           (''feature-enrichment'', Dir []), (''logits-adjustment'', Dir []),
           (''loss-functions'', Dir []), (''foundation-models'', Dir []),
           (''multimodality'', Dir []), (''fairness'', Dir []), (''rare-disease'', Dir [])])
   = Inr ([(''surveys'', Dir [(''a.bib'', File ''@misc{a,}'')]), (''README.md'', File ''notes''),
           (''data-balancing'', Dir []), (''neural-architecture'', Dir []),
           (''feature-enrichment'', Dir []), (''logits-adjustment'', Dir []),
           (''loss-functions'', Dir []), (''foundation-models'', Dir []),
           (''multimodality'', Dir []), (''fairness'', Dir []), (''rare-disease'', Dir [])],
          0, 10)"
proof -
  have h: "setup_folders_main
     (IsDir [(''surveys'', Dir [(''a.bib'', File ''@misc{a,}'')]), (''README.md'', File ''notes'')])
   = Inr ([(''surveys'', Dir [(''a.bib'', File ''@misc{a,}'')]), (''README.md'', File ''notes''),
           (''data-balancing'', Dir []), (''neural-architecture'', Dir []),
           (''feature-enrichment'', Dir []), (''logits-adjustment'', Dir []),
           (''loss-functions'', Dir []), (''foundation-models'', Dir []),
           (''multimodality'', Dir []), (''fairness'', Dir []), (''rare-disease'', Dir [])],
          9, 1)"
    by code_simp
  from setup_folders_idempotent [OF h] h show ?thesis by (simp only: simp_thms)
qed

section \<open>Folders outside the category table\<close>

text \<open>
  Claim C7: a subdirectory of the citations directory whose name is not in the category
  table is skipped by \<open>build_all_taxonomies\<close>. Whatever the run does, the file named after it
  in the output directory is what it was before the run, the returned counts have no entry
  for it, and the run without the subdirectory gives the same output directory and the
  same counts or the same error: skipping raises nothing.
\<close>

theorem unknown_directory_skipped:
  assumes "name \<notin> set (map fst CATEGORY_INFO)"
  shows "out_file (fst (snd (build_all_taxonomies citations_dir output_dir))) (name @ ''.json'')
           = out_file output_dir (name @ ''.json'') \<and>
         (\<forall>stats. snd (snd (build_all_taxonomies citations_dir output_dir)) = Inr stats \<longrightarrow>
            stats name = None) \<and>
         snd (build_all_taxonomies (IsDir (filter (\<lambda>e. fst e \<noteq> name) es)) output_dir)
           = snd (build_all_taxonomies (IsDir es) output_dir)"
proof -
  have A: "out_file (fst (snd (build_all_taxonomies citations_dir output_dir))) (name @ ''.json'')
           = out_file output_dir (name @ ''.json'') \<and>
         (\<forall>stats. snd (snd (build_all_taxonomies citations_dir output_dir)) = Inr stats \<longrightarrow>
            stats name = None)"
  proof (cases "mkdir_exist_ok [] citations_dir")
    case (Inl e)
    then show ?thesis by (simp add: build_all_taxonomies_def)
  next
    case c: (Inr es0)
    show ?thesis
    proof (cases "mkdir_exist_ok Map.empty output_dir")
      case (Inl e)
      with c show ?thesis by (simp add: build_all_taxonomies_def)
    next
      case o: (Inr out)
      obtain out' r where l: "build_loop (sort_key fst es0) out Map.empty = (out', r)"
        by (cases "build_loop (sort_key fst es0) out Map.empty") auto
      from build_loop_unknown [OF assms l] have
        u: "out' (name @ ''.json'') = out (name @ ''.json'')"
           "\<forall>st. r = Inr st \<longrightarrow> st name = None" by simp_all
      have "out_file output_dir (name @ ''.json'') = out (name @ ''.json'')"
        using o by (cases output_dir) (auto simp: mkdir_exist_ok_def out_file_def)
      with u c o l show ?thesis by (simp add: build_all_taxonomies_def out_file_def)
    qed
  qed
  have B: "snd (build_all_taxonomies (IsDir (filter (\<lambda>e. fst e \<noteq> name) es)) output_dir)
           = snd (build_all_taxonomies (IsDir es) output_dir)"
    by (simp add: build_all_taxonomies_def mkdir_exist_ok_def filter_sort [symmetric]
        build_loop_filter [OF assms] split: sum.splits prod.splits)
  from A B show ?thesis by simp
qed

text \<open>The theorem at a citations directory with the folder \<open>zzz-drafts\<close>, which is not in the
  table, beside the folder \<open>surveys\<close>: only \<open>surveys.json\<close> is written and counted.\<close>

theorem unknown_directory_skipped_witness:
  "''zzz-drafts'' \<notin> set (map fst CATEGORY_INFO) \<and>
   out_file (fst (snd (build_all_taxonomies
     (IsDir [(''zzz-drafts'', Dir [(''a.bib'', File ''@misc{a, title = {A}}'')]),
             (''surveys'', Dir [(''s.bib'', File ''@article{s1, title = {T}}'')])])
     Missing))) ''zzz-drafts.json'' = None \<and>
   out_file (fst (snd (build_all_taxonomies
     (IsDir [(''zzz-drafts'', Dir [(''a.bib'', File ''@misc{a, title = {A}}'')]),
             (''surveys'', Dir [(''s.bib'', File ''@article{s1, title = {T}}'')])])
     Missing))) ''surveys.json'' \<noteq> None \<and>
   map_sum id (\<lambda>stats. (stats ''zzz-drafts'', stats ''surveys''))
     (snd (snd (build_all_taxonomies
       (IsDir [(''zzz-drafts'', Dir [(''a.bib'', File ''@misc{a, title = {A}}'')]),
               (''surveys'', Dir [(''s.bib'', File ''@article{s1, title = {T}}'')])])
       Missing)))
   = Inr (None, Some 1)"
proof -
  have h: "''zzz-drafts'' \<notin> set (map fst CATEGORY_INFO)" by code_simp
  have 1: "out_file (fst (snd (build_all_taxonomies
     (IsDir [(''zzz-drafts'', Dir [(''a.bib'', File ''@misc{a, title = {A}}'')]),
             (''surveys'', Dir [(''s.bib'', File ''@article{s1, title = {T}}'')])])
     Missing))) ''zzz-drafts.json'' = None"
    using unknown_directory_skipped [OF h, of
      "IsDir [(''zzz-drafts'', Dir [(''a.bib'', File ''@misc{a, title = {A}}'')]),
             (''surveys'', Dir [(''s.bib'', File ''@article{s1, title = {T}}'')])]" Missing "[]"]
    by (simp add: out_file_def)
  have 2: "out_file (fst (snd (build_all_taxonomies
     (IsDir [(''zzz-drafts'', Dir [(''a.bib'', File ''@misc{a, title = {A}}'')]),
             (''surveys'', Dir [(''s.bib'', File ''@article{s1, title = {T}}'')])])
     Missing))) ''surveys.json'' \<noteq> None"
    by code_simp
  have 3: "map_sum id (\<lambda>stats. (stats ''zzz-drafts'', stats ''surveys''))
     (snd (snd (build_all_taxonomies
       (IsDir [(''zzz-drafts'', Dir [(''a.bib'', File ''@misc{a, title = {A}}'')]),
               (''surveys'', Dir [(''s.bib'', File ''@article{s1, title = {T}}'')])])
       Missing)))
   = Inr (None, Some 1)"
    by code_simp
  from h 1 2 3 show ?thesis by (intro conjI)
qed

section \<open>The papers of a category\<close>

text \<open>
  Claim C2, as amended: for a category directory in which every entry named \<open>*.bib\<close> is a
  regular file that reads as UTF-8 text, \<open>process_category\<close> returns a document whose paper
  list has one record for each file named \<open>*.bib\<close>, parsed from the text of that file, as
  many records as there are such files, in the lexicographic order of the file names.
  Entries of other names are not read.
\<close>

theorem category_papers_from_bib_files:
  assumes "\<forall>e\<in>set category_folder. is_bib e \<longrightarrow> reads_as_text (snd e)"
  shows "\<exists>doc fs. process_category category_name category_folder = Inr doc \<and>
           papers doc = map (\<lambda>f. parse_bibtex_entry (snd f)) fs \<and>
           length (papers doc) = length (bib_files_of category_folder) \<and>
           mset fs = mset (bib_files_of category_folder) \<and>
           sorted (map fst fs)"
proof -
  define bf where "bf = sort_key fst (filter is_bib category_folder)"
  define fs where "fs = map (\<lambda>e. (fst e, node_text (snd e))) bf"
  have files: "\<forall>e\<in>set bf. reads_as_text (snd e)"
    using assms by (auto simp: bf_def)
  have r: "read_papers bf = Inr (map (\<lambda>f. parse_bibtex_entry (snd f)) fs)"
    using read_papers_files [OF files] by (simp add: fs_def comp_def)
  have f: "filter (\<lambda>e. is_bib e \<and> reads_as_text (snd e)) category_folder
           = filter is_bib category_folder"
    using assms by (auto intro: filter_cong)
  have m: "mset fs = mset (bib_files_of category_folder)"
    by (simp add: fs_def bf_def bib_files_of_def f)
  have so: "sorted (map fst fs)"
    by (simp add: fs_def bf_def comp_def)
  have l: "length fs = length (bib_files_of category_folder)"
    using m by (metis size_mset)
  obtain doc where d: "process_category category_name category_folder = Inr doc"
    and p: "papers doc = map (\<lambda>f. parse_bibtex_entry (snd f)) fs"
    using r by (simp add: process_category_def bf_def [symmetric] Let_def)
  from d p l m so show ?thesis by auto
qed

text \<open>The theorem at a directory with two citation files out of order, a file of notes, a
  directory whose name does not end in \<open>.bib\<close> and an image, which is not read.\<close>

theorem category_papers_from_bib_files_witness:
  "bib_files_of
     [(''b.bib'', File ''@misc{b, title = {B}}''), (''notes.txt'', File ''todo''),
      (''a.bib'', File ''@misc{a, title = {A}}''), (''old.bib.bak'', Dir []),
      (''cover.png'', Undecodable)]
   = [(''b.bib'', ''@misc{b, title = {B}}''), (''a.bib'', ''@misc{a, title = {A}}'')] \<and>
   \<not> isl (process_category ''surveys''
     [(''b.bib'', File ''@misc{b, title = {B}}''), (''notes.txt'', File ''todo''),
      (''a.bib'', File ''@misc{a, title = {A}}''), (''old.bib.bak'', Dir []),
      (''cover.png'', Undecodable)]) \<and>
   length (papers (projr (process_category ''surveys''
     [(''b.bib'', File ''@misc{b, title = {B}}''), (''notes.txt'', File ''todo''),
      (''a.bib'', File ''@misc{a, title = {A}}''), (''old.bib.bak'', Dir []),
      (''cover.png'', Undecodable)]))) = 2 \<and>
   map entry_id (papers (projr (process_category ''surveys''
     [(''b.bib'', File ''@misc{b, title = {B}}''), (''notes.txt'', File ''todo''),
      (''a.bib'', File ''@misc{a, title = {A}}''), (''old.bib.bak'', Dir []),
      (''cover.png'', Undecodable)]))) = [''a'', ''b'']"
proof -
  have h: "\<forall>e\<in>set
     [(''b.bib'', File ''@misc{b, title = {B}}''), (''notes.txt'', File ''todo''),
      (''a.bib'', File ''@misc{a, title = {A}}''), (''old.bib.bak'', Dir []),
      (''cover.png'', Undecodable)]. is_bib e \<longrightarrow> reads_as_text (snd e)"
    by code_simp
  have b: "bib_files_of
     [(''b.bib'', File ''@misc{b, title = {B}}''), (''notes.txt'', File ''todo''),
      (''a.bib'', File ''@misc{a, title = {A}}''), (''old.bib.bak'', Dir []),
      (''cover.png'', Undecodable)]
   = [(''b.bib'', ''@misc{b, title = {B}}''), (''a.bib'', ''@misc{a, title = {A}}'')]"
    by code_simp
  from category_papers_from_bib_files [OF h, of "''surveys''"] obtain doc where
    d: "process_category ''surveys''
     [(''b.bib'', File ''@misc{b, title = {B}}''), (''notes.txt'', File ''todo''),
      (''a.bib'', File ''@misc{a, title = {A}}''), (''old.bib.bak'', Dir []),
      (''cover.png'', Undecodable)] = Inr doc" and
    n: "length (papers doc) = length (bib_files_of
     [(''b.bib'', File ''@misc{b, title = {B}}''), (''notes.txt'', File ''todo''),
      (''a.bib'', File ''@misc{a, title = {A}}''), (''old.bib.bak'', Dir []),
      (''cover.png'', Undecodable)])"
    by auto
  have 1: "\<not> isl (process_category ''surveys''
     [(''b.bib'', File ''@misc{b, title = {B}}''), (''notes.txt'', File ''todo''),
      (''a.bib'', File ''@misc{a, title = {A}}''), (''old.bib.bak'', Dir []),
      (''cover.png'', Undecodable)])"
    unfolding d by simp
  have 2: "length (papers (projr (process_category ''surveys''
     [(''b.bib'', File ''@misc{b, title = {B}}''), (''notes.txt'', File ''todo''),
      (''a.bib'', File ''@misc{a, title = {A}}''), (''old.bib.bak'', Dir []),
      (''cover.png'', Undecodable)]))) = 2"
    unfolding d using n unfolding b by simp
  have 3: "map entry_id (papers (projr (process_category ''surveys''
     [(''b.bib'', File ''@misc{b, title = {B}}''), (''notes.txt'', File ''todo''),
      (''a.bib'', File ''@misc{a, title = {A}}''), (''old.bib.bak'', Dir []),
      (''cover.png'', Undecodable)]))) = [''a'', ''b'']"
    by code_simp
  from b 1 2 3 show ?thesis by (intro conjI)
qed

text \<open>Claim C2 as written fails: a directory of two files, one of them not named \<open>*.bib\<close>,
  gives a paper list of one record.\<close>

theorem other_files_are_not_papers:
  "\<not> isl (process_category ''surveys''
     [(''a.bib'', File ''@misc{a, title = {A}}''), (''notes.txt'', File ''todo'')]) \<and>
   length (papers (projr (process_category ''surveys''
     [(''a.bib'', File ''@misc{a, title = {A}}''), (''notes.txt'', File ''todo'')])))
   \<noteq> length [(''a.bib'', File ''@misc{a, title = {A}}''), (''notes.txt'', File ''todo'')]"
  by code_simp

text \<open>A file that does not read ends the run of its category with the error of the read,
  and a directory named \<open>*.bib\<close> with the error of the open.\<close>

lemma process_category_read_errors:
  "process_category ''surveys'' [(''a.bib'', File ''@misc{a,}''), (''b.bib'', Undecodable)]
     = Inl UnicodeDecodeError \<and>
   process_category ''surveys'' [(''a.bib'', File ''@misc{a,}''), (''b.bib'', Dir [])]
     = Inl IsADirectoryError"
  by code_simp

text \<open>The display name of a folder outside the table, on an ASCII name and on a name with
  the Latin-1 letters \<open>233\<close> and \<open>223\<close>: the first is put in upper case at the start of the
  name and kept after a letter, the second is kept after a letter.\<close>

lemma str_title_examples:
  "str_title (replace_hyphens ''rare-disease-NOTES'') = code_points ''Rare Disease Notes'' \<and>
   str_title (replace_hyphens
     [CHR 0xE9, CHR ''t'', CHR 0xE9, CHR ''-'', CHR ''s'', CHR ''t'', CHR ''r'', CHR ''a'',
      CHR 0xDF, CHR ''e''])
   = [201, 116, 233, 32, 83, 116, 114, 97, 223, 101]"
  by code_simp

section \<open>The scenario of the specification\<close>

text \<open>
  Claim C6: parsing the entry text
  \<open>@article{foo2020, title = {Deep Learning}, author = {Jane Doe}, year = {2020}, journal = {Nature}}\<close>
  gives the identifier \<open>foo2020\<close>, the title \<open>Deep Learning\<close>, the authors \<open>Jane Doe\<close>, the
  year \<open>2020\<close>, the venue \<open>Nature\<close> and the abstract \<open>Abstract not available.\<close>
\<close>

theorem parse_scenario_foo2020:
  "parse_bibtex_entry
     ''@article{foo2020, title = {Deep Learning}, author = {Jane Doe}, year = {2020}, journal = {Nature}}''
   = \<lparr> entry_id = ''foo2020'', entry_title = ''Deep Learning'', entry_authors = ''Jane Doe'',
       entry_year = ''2020'', entry_venue = ''Nature'',
       entry_abstract = ''Abstract not available.'',
       entry_bibtex =
         ''@article{foo2020, title = {Deep Learning}, author = {Jane Doe}, year = {2020}, journal = {Nature}}'' \<rparr>"
  by code_simp

end
